theory Spec2Isabelle
  imports Complex_Main "HOL-Library.Option_ord" "HOL-Library.Multiset"
begin

section \<open>Data model (interfaces/Scraper.ts, interfaces/Embedding.ts)\<close>

text \<open>
  JavaScript strings are modelled as \<open>string\<close>; the code only compares them, searches
  them for ASCII characters and concatenates them. JavaScript numbers that the code uses
  as counts or indices (\<open>depth\<close>, \<open>maxDepth\<close>, \<open>concurrency\<close>, \<open>batchSize\<close>,
  \<open>limit\<close>) are \<open>int\<close>; vector components and distances are \<open>real\<close>.
\<close>

record ScrapeItem =
  url :: string
  depth :: int

record ScrapeResult =
  url :: string
  content :: string

record ScrapeSchema =
  url :: "string list"
  parse :: "string \<Rightarrow> string option"

record EmbeddingResult =
  count :: int
  data :: "real list list"
  dimensions :: int

record EmbeddingStored =
  id' :: string
  source :: string
  content :: string
  vector :: "real list"
  timestamp :: int

record EmbeddingQuery = EmbeddingStored +
  distance :: "real option"
  similarity :: int

text \<open>
  The \<open>Encoder\<close> class: \<open>pipeline\<close> is the loaded transformer (an external model),
  \<open>None\<close> while it is \<open>null\<close>. A call of the pipeline either rejects with a message
  (\<open>Inl\<close>) or yields one vector per sentence.
\<close>

record EmbedEncoder =
  pipeline :: "(string list \<Rightarrow> string + real list list) option"
  initialized :: bool

text \<open>What \<open>console.log\<close> and \<open>console.error\<close> receive through \<open>LoggerUtils\<close>
  (timestamps and decoration left out).\<close>

datatype log_entry =
    DEBUG_found_links nat string int
  | INFO_stored string
  | ERROR string

text \<open>A value thrown by the HTTP client: a \<open>FetchError\<close> or anything else, with its message.\<close>

datatype thrown = FetchError string | OtherError string

text \<open>The fields of a parsed \<open>URL\<close> object that the code reads.\<close>

record URL =
  href :: string
  hostname :: string
  pathname :: string

text \<open>
  Everything the code calls but does not define is a field of the environment:
  \<^item> \<open>urlParse u\<close> is \<open>new URL(u)\<close>, \<open>None\<close> when the constructor throws;
  \<^item> \<open>urlResolve h b\<close> is \<open>new URL(h, b)\<close>;
  \<^item> \<open>fetchGet u\<close> is the settled outcome of \<open>fetchClient.get(u, ...)\<close> after its own
    retries;
  \<^item> \<open>fetchPick\<close> and \<open>extractPick\<close> choose which of the promises in flight settles
    next (an index, taken modulo the number in flight), so that every order of settlement
    is covered;
  \<^item> \<open>generateId\<close> and \<open>now\<close> give the result of the \<open>n\<close>-th call of
    \<open>GeneratorUtils.generateId()\<close> and \<open>Date.now()\<close>;
  \<^item> \<open>toFloat32\<close> is the narrowing done by \<open>new Float32Array(...)\<close>;
  \<^item> \<open>vec_distance_cosine\<close> is the SQL function of sqlite-vec: it raises an SQL error
    (\<open>Inl\<close>), or yields \<open>NULL\<close> (\<open>None\<close>) or a number.
\<close>

record env =
  urlParse :: "string \<Rightarrow> URL option"
  urlResolve :: "string \<Rightarrow> URL \<Rightarrow> URL option"
  fetchGet :: "string \<Rightarrow> thrown + string"
  fetchPick :: "string list \<Rightarrow> nat"
  extractPick :: "string list \<Rightarrow> nat"
  generateId :: "nat \<Rightarrow> string"
  now :: "nat \<Rightarrow> int"
  toFloat32 :: "real \<Rightarrow> real"
  vec_distance_cosine :: "real list \<Rightarrow> real list \<Rightarrow> string + real option"

text \<open>
  The state: first the private fields of one \<open>ScraperUtils\<close> instance (a JavaScript
  \<open>Set\<close> is the list of its members in insertion order), then what the instance shares
  with the rest of the process: the rows of table \<open>embedding\<close>, the log, three traces
  that record, in order, the URLs handed to \<open>fetchClient.get\<close>, the results handed to
  \<open>processScrapedResult\<close> and the arguments of \<open>encoder.extract\<close>, and the number
  \<open>ticks\<close> of ids generated so far.
\<close>

record state =
  visited :: "string list"
  queue :: "string list"
  encoder :: "EmbedEncoder option"
  schema :: "ScrapeSchema option"
  results :: "ScrapeResult list"
  maxDepth :: int
  embedding :: "EmbeddingStored list"
  logged :: "log_entry list"
  requests :: "string list"
  handed :: "ScrapeResult list"
  extractCalls :: "string list list"
  ticks :: nat

section \<open>JavaScript library operations\<close>

text \<open>\<open>Set.prototype.add\<close>, \<open>delete\<close> and \<open>has\<close> on the insertion-ordered list.\<close>

definition set_has :: "'a list \<Rightarrow> 'a \<Rightarrow> bool" where
  "set_has xs x = (x \<in> set xs)"

definition set_add :: "'a list \<Rightarrow> 'a \<Rightarrow> 'a list" where
  "set_add xs x = (if x \<in> set xs then xs else xs @ [x])"

definition set_delete :: "'a list \<Rightarrow> 'a \<Rightarrow> 'a list" where
  "set_delete xs x = removeAll x xs"

text \<open>\<open>Array.prototype.slice(start, end)\<close>: a negative index counts from the end, and
  both are clamped to the array.\<close>

definition relIndex :: "int \<Rightarrow> nat \<Rightarrow> nat" where
  "relIndex i n = (if i < 0 then nat (max (int n + i) 0) else nat (min i (int n)))"

definition slice :: "'a list \<Rightarrow> int \<Rightarrow> int \<Rightarrow> 'a list" where
  "slice xs start end' =
     (let k = relIndex start (length xs); f = relIndex end' (length xs)
      in take (f - k) (drop k xs))"

text \<open>\<open>slice(start)\<close> with the end left out.\<close>

definition slice_from :: "'a list \<Rightarrow> int \<Rightarrow> 'a list" where
  "slice_from xs start = drop (relIndex start (length xs)) xs"

text \<open>\<open>Array.prototype.splice(0, deleteCount)\<close>: the removed elements and what is left.\<close>

definition splice0 :: "'a list \<Rightarrow> int \<Rightarrow> 'a list \<times> 'a list" where
  "splice0 xs deleteCount =
     (let k = nat (min (max deleteCount 0) (int (length xs))) in (take k xs, drop k xs))"

text \<open>\<open>Math.round\<close> rounds to the nearest integer, a half upwards.\<close>

definition Math_round :: "real \<Rightarrow> int" where
  "Math_round x = \<lfloor>x + 1 / 2\<rfloor>"

text \<open>\<open>toLowerCase\<close> on the characters of a URL path, which the URL parser keeps ASCII.\<close>

definition toLowerCase :: "char \<Rightarrow> char" where
  "toLowerCase c =
     (let n = (of_char c :: nat) in if 65 \<le> n \<and> n \<le> 90 then char_of (n + 32) else c)"

definition endsWith :: "string \<Rightarrow> string \<Rightarrow> bool" where
  "endsWith s suffix = (length suffix \<le> length s \<and> drop (length s - length suffix) s = suffix)"

text \<open>
  The order in which promises in flight settle: \<open>pick\<close> names the next one to settle
  among those still pending.
\<close>

function settle :: "('a list \<Rightarrow> nat) \<Rightarrow> 'a list \<Rightarrow> 'a list" where
  "settle pick xs =
     (if xs = [] then []
      else (let i = pick xs mod length xs
            in xs ! i # settle pick (take i xs @ drop (Suc i) xs)))"
  by pat_completeness auto
termination
proof (relation "measure (\<lambda>(pick, xs). length xs)")
  show "wf (measure (\<lambda>(pick :: 'a list \<Rightarrow> nat, xs). length xs))"
    by simp
next
  fix pick :: "'a list \<Rightarrow> nat" and xs :: "'a list" and i
  assume "xs \<noteq> []" and "i = pick xs mod length xs"
  then have "i < length xs"
    by simp
  then show "((pick, take i xs @ drop (Suc i) xs), pick, xs) \<in> measure (\<lambda>(pick, xs). length xs)"
    by simp
qed

section \<open>Link extraction (ScraperUtils.extractLinks, isValidUrl, isWithinSameDomain)\<close>

definition isQuote :: "char \<Rightarrow> bool" where
  "isQuote c = (c = CHR 0x22 \<or> c = CHR 0x27)"

text \<open>
  One attempt to match \<open>/href=["']([^"']+)["']/i\<close> at the head of the text: the
  capture and the text after the match. The class \<open>[^"']+\<close> is greedy, and the
  character after it must be a quote, so the capture is the longest run without a quote.
\<close>

definition matchHrefAt :: "string \<Rightarrow> (string \<times> string) option" where
  "matchHrefAt s =
     (if map toLowerCase (take 5 s) = ''href='' then
        (case drop 5 s of
           [] \<Rightarrow> None
         | q # t \<Rightarrow>
             if isQuote q then
               (let capture = takeWhile (\<lambda>c. \<not> isQuote c) t;
                    rest = dropWhile (\<lambda>c. \<not> isQuote c) t
                in if capture \<noteq> [] \<and> rest \<noteq> [] then Some (capture, tl rest) else None)
             else None)
      else None)"

text \<open>
  The loop \<open>while ((match = hrefRegex.exec(html)) !== null)\<close> with the \<open>g\<close> flag:
  the leftmost match from \<open>lastIndex\<close> on, then on from the end of that match.
\<close>

function hrefMatches :: "string \<Rightarrow> string list" where
  "hrefMatches [] = []"
| "hrefMatches (c # s) =
     (case matchHrefAt (c # s) of
        Some (capture, rest) \<Rightarrow> capture # hrefMatches rest
      | None \<Rightarrow> hrefMatches s)"
  by pat_completeness auto
termination
proof (relation "measure length")
  show "wf (measure length)"
    by simp
next
  fix c :: char and s x2 capture rest
  assume "matchHrefAt (c # s) = Some x2" and "(capture, rest) = x2"
  then obtain q t where t: "drop 5 (c # s) = q # t"
    and rest: "rest = tl (dropWhile (\<lambda>c. \<not> isQuote c) t)"
    by (auto simp: matchHrefAt_def Let_def split: if_splits list.splits)
  have "length (dropWhile (\<lambda>c. \<not> isQuote c) t) \<le> length t"
    by (rule length_dropWhile_le)
  then have "length (tl (dropWhile (\<lambda>c. \<not> isQuote c) t)) \<le> length t"
    by simp
  moreover have "length t < length (c # s)"
    using arg_cong [OF t, of length] by simp
  ultimately show "(rest, c # s) \<in> measure length"
    using rest by simp
next
  fix c :: char and s
  show "(s, c # s) \<in> measure length"
    by simp
qed

definition isValidUrl :: "env \<Rightarrow> string \<Rightarrow> bool" where
  "isValidUrl E u =
     (if CHR ''#'' \<in> set u then False
      else (case urlParse E u of
              None \<Rightarrow> False
            | Some urlObj \<Rightarrow>
                (let pathname = map toLowerCase (pathname urlObj)
                 in endsWith pathname ''.html'' \<or> endsWith pathname ''.htm''
                    \<or> CHR ''.'' \<notin> set pathname)))"

definition isWithinSameDomain :: "env \<Rightarrow> string \<Rightarrow> string \<Rightarrow> bool" where
  "isWithinSameDomain E u baseUrl =
     (case urlParse E u of
        None \<Rightarrow> False
      | Some urlObj \<Rightarrow>
          (case urlParse E baseUrl of
             None \<Rightarrow> False
           | Some baseObj \<Rightarrow> hostname urlObj = hostname baseObj))"

text \<open>The body of the loop of \<open>extractLinks\<close> for one \<open>href\<close>: the link it pushes, if any.\<close>

definition linkOf :: "env \<Rightarrow> URL \<Rightarrow> string \<Rightarrow> string \<Rightarrow> string option" where
  "linkOf E base baseUrl h =
     (if h = [] then None
      else (case urlResolve E h base of
              None \<Rightarrow> None
            | Some absolute \<Rightarrow>
                (let absoluteUrl = href absolute;
                     isSameDomain = isWithinSameDomain E absoluteUrl baseUrl;
                     isValid = isValidUrl E absoluteUrl
                 in if isSameDomain \<and> isValid then Some absoluteUrl else None)))"

text \<open>\<open>extractLinks\<close> throws (\<open>Inl\<close>) when \<open>new URL(baseUrl)\<close> does.\<close>

definition extractLinks :: "env \<Rightarrow> string \<Rightarrow> string \<Rightarrow> string + string list" where
  "extractLinks E html baseUrl =
     (case urlParse E baseUrl of
        None \<Rightarrow> Inl ''Invalid URL''
      | Some base \<Rightarrow> Inr (List.map_filter (linkOf E base baseUrl) (hrefMatches html)))"

section \<open>The vector store (core/Database.ts)\<close>

text \<open>
  \<open>insertVector\<close> runs \<open>INSERT INTO embedding\<close>; column \<open>id\<close> is the primary key,
  so the statement throws when the id is already stored.
\<close>

definition insertVector ::
  "env \<Rightarrow> string \<Rightarrow> real list \<Rightarrow> string \<Rightarrow> string \<Rightarrow> int \<Rightarrow> EmbeddingStored list
     \<Rightarrow> string + EmbeddingStored list" where
  "insertVector E i embedding' src text' ts rows =
     (let embeddingBuffer = map (toFloat32 E) embedding'
      in if i \<in> set (map id' rows) then Inl ''UNIQUE constraint failed: embedding.id''
         else Inr (rows @ [\<lparr>id' = i, source = src, content = text',
                               vector = embeddingBuffer, timestamp = ts\<rparr>]))"

text \<open>The column \<open>distance\<close> of each row; the query throws when the SQL function does.\<close>

fun distances ::
  "env \<Rightarrow> real list \<Rightarrow> EmbeddingStored list \<Rightarrow> string + (real option \<times> EmbeddingStored) list" where
  "distances E q [] = Inr []"
| "distances E q (r # rs) =
     (case vec_distance_cosine E (vector r) q of
        Inl e \<Rightarrow> Inl e
      | Inr d \<Rightarrow> (case distances E q rs of Inl e \<Rightarrow> Inl e | Inr ds \<Rightarrow> Inr ((d, r) # ds)))"

text \<open>
  \<open>SELECT ... FROM embedding ORDER BY vec_distance_cosine(vector, ?) LIMIT ?\<close>:
  ascending, \<open>NULL\<close> first (as \<open>None\<close> is least), and a negative \<open>LIMIT\<close> is no limit.
  The order among rows of equal distance is the engine's choice; the stable sort is one.
\<close>

definition selectNearest ::
  "env \<Rightarrow> real list \<Rightarrow> int \<Rightarrow> EmbeddingStored list \<Rightarrow> string + (real option \<times> EmbeddingStored) list" where
  "selectNearest E queryBuffer limit rows =
     (case distances E queryBuffer rows of
        Inl e \<Rightarrow> Inl e
      | Inr ds \<Rightarrow>
          (let ordered = sort_key fst ds
           in Inr (if limit < 0 then ordered else take (nat limit) ordered)))"

text \<open>The object built for one row: \<open>distance\<close> is not copied, \<open>result.distance ?? 0\<close>
  feeds the similarity.\<close>

definition toQuery :: "real option \<times> EmbeddingStored \<Rightarrow> EmbeddingQuery" where
  "toQuery dr =
     (case dr of (d, r) \<Rightarrow>
        \<lparr>id' = id' r, source = source r, content = EmbeddingStored.content r,
         vector = vector r, timestamp = timestamp r, distance = None,
         similarity = Math_round ((1 - (case d of None \<Rightarrow> 0 | Some x \<Rightarrow> x)) * 100)\<rparr>)"

definition searchVectors ::
  "env \<Rightarrow> real list \<Rightarrow> int \<Rightarrow> EmbeddingStored list \<Rightarrow> string + EmbeddingQuery list" where
  "searchVectors E queryEmbedding limit rows =
     (let queryBuffer = map (toFloat32 E) queryEmbedding
      in case selectNearest E queryBuffer limit rows of
           Inl e \<Rightarrow> Inl e
         | Inr found \<Rightarrow> Inr (map toQuery found))"

section \<open>The encoder (core/embedding/Encoder.ts)\<close>

definition isInitialized :: "EmbedEncoder \<Rightarrow> bool" where
  "isInitialized enc = (initialized enc \<and> pipeline enc \<noteq> None)"

text \<open>\<open>Encoder.extract\<close> rejects (\<open>Inl\<close>) or resolves to the result; the batching of the
  sentences is inside the pipeline call.\<close>

definition Encoder_extract :: "EmbedEncoder \<Rightarrow> string list \<Rightarrow> string + EmbeddingResult" where
  "Encoder_extract enc sentences =
     (if \<not> isInitialized enc then Inl ''Encoder not initialized. Call initialize() first.''
      else if sentences = [] then Inl ''Input sentences array cannot be empty''
      else (case pipeline enc of
              None \<Rightarrow> Inl ''Failed to extract embeddings: Pipeline not initialized, call initialize() first.''
            | Some run \<Rightarrow>
                (case run sentences of
                   Inl msg \<Rightarrow> Inl (''Failed to extract embeddings: '' @ msg)
                 | Inr vs \<Rightarrow>
                     Inr \<lparr>count = int (length sentences), data = vs,
                          dimensions = (case vs of [] \<Rightarrow> 0 | v # _ \<Rightarrow> int (length v))\<rparr>)))"

section \<open>The ingest of one result (Processor.ts, processScrapedResult)\<close>

text \<open>
  An \<open>async\<close> function runs up to its first \<open>await\<close> when it is called and the rest
  when the awaited promise settles. \<open>processScrapedResult_begin\<close> is the part up to
  \<open>await encoder.extract([markdown])\<close>: it yields what is in flight, or \<open>None\<close> when
  the function has returned. \<open>processScrapedResult_resume\<close> is the part after it; its
  second component is the rejection, if the promise rejects.
\<close>

definition processScrapedResult_begin ::
  "ScrapeResult \<Rightarrow> ScrapeSchema \<Rightarrow> EmbedEncoder \<Rightarrow> state
     \<Rightarrow> state \<times> (ScrapeResult \<times> string) option" where
  "processScrapedResult_begin result sch enc s =
     (let s1 = s\<lparr>handed := handed s @ [result]\<rparr>
      in case parse sch (ScrapeResult.content result) of
           None \<Rightarrow> (s1, None)
         | Some markdown \<Rightarrow>
             if length markdown = 0 then (s1, None)
             else (s1\<lparr>extractCalls := extractCalls s1 @ [[markdown]]\<rparr>, Some (result, markdown)))"

definition processScrapedResult_resume ::
  "env \<Rightarrow> EmbedEncoder \<Rightarrow> ScrapeResult \<times> string \<Rightarrow> state \<Rightarrow> state \<times> string option" where
  "processScrapedResult_resume E enc rm s =
     (case rm of (result, markdown) \<Rightarrow>
        (case Encoder_extract enc [markdown] of
           Inl msg \<Rightarrow> (s, Some msg)
         | Inr embeddingResult \<Rightarrow>
             (let embeddingVector = (case data embeddingResult of [] \<Rightarrow> [] | v # _ \<Rightarrow> v);
                  newId = generateId E (ticks s);
                  ts = now E (ticks s);
                  s1 = s\<lparr>ticks := Suc (ticks s)\<rparr>
              in case insertVector E newId embeddingVector (ScrapeResult.url result) markdown ts
                        (embedding s1) of
                   Inl msg \<Rightarrow> (s1, Some msg)
                 | Inr rows \<Rightarrow>
                     (s1\<lparr>embedding := rows,
                         logged := logged s1 @ [INFO_stored (ScrapeResult.url result)]\<rparr>, None))))"

text \<open>One call awaited on its own.\<close>

definition processScrapedResult ::
  "env \<Rightarrow> ScrapeResult \<Rightarrow> ScrapeSchema \<Rightarrow> EmbedEncoder \<Rightarrow> state \<Rightarrow> state \<times> string option" where
  "processScrapedResult E result sch enc s =
     (case processScrapedResult_begin result sch enc s of
        (s1, None) \<Rightarrow> (s1, None)
      | (s1, Some rm) \<Rightarrow> processScrapedResult_resume E enc rm s1)"

section \<open>The crawler (utils/Scraper.ts, class ScraperUtils)\<close>

text \<open>\<open>scrapeUrl\<close> resolves to the body or rejects with the message of the error it throws.\<close>

definition scrapeUrl :: "env \<Rightarrow> string \<Rightarrow> string + string" where
  "scrapeUrl E u =
     (case fetchGet E u of
        Inr response \<Rightarrow> Inr response
      | Inl (FetchError msg) \<Rightarrow> Inl (''Fetch error for '' @ u @ '': '' @ msg)
      | Inl (OtherError msg) \<Rightarrow> Inl msg)"

text \<open>
  \<open>processUrl\<close> up to \<open>await this.scrapeUrl(url)\<close>: the guard on \<open>visited\<close>, the
  insertion into \<open>visited\<close> and the call that issues the request.
\<close>

definition processUrl_begin :: "ScrapeItem \<Rightarrow> state \<Rightarrow> state \<times> ScrapeItem option" where
  "processUrl_begin queueItem s =
     (if set_has (visited s) (ScrapeItem.url queueItem) then (s, None)
      else (s\<lparr>visited := set_add (visited s) (ScrapeItem.url queueItem),
               requests := requests s @ [ScrapeItem.url queueItem]\<rparr>, Some queueItem))"

text \<open>The \<open>forEach\<close> over \<open>newLinks\<close>.\<close>

definition enqueueLink :: "state \<Rightarrow> string \<Rightarrow> state" where
  "enqueueLink s link =
     (if \<not> set_has (visited s) link then s\<lparr>queue := set_add (queue s) link\<rparr> else s)"

text \<open>\<open>processUrl\<close> from the settlement of the request on; the \<open>catch\<close> logs what
  \<open>scrapeUrl\<close> or \<open>extractLinks\<close> throws.\<close>

definition processUrl_resume :: "env \<Rightarrow> ScrapeItem \<Rightarrow> state \<Rightarrow> state" where
  "processUrl_resume E queueItem s =
     (let u = ScrapeItem.url queueItem; d = depth queueItem
      in case scrapeUrl E u of
           Inl msg \<Rightarrow> s\<lparr>logged := logged s @ [ERROR msg]\<rparr>
         | Inr body \<Rightarrow>
             (let s1 = s\<lparr>results := results s @ [\<lparr>ScrapeResult.url = u, ScrapeResult.content = body\<rparr>]\<rparr>
              in if d < maxDepth s1 then
                   (case extractLinks E body u of
                      Inl msg \<Rightarrow> s1\<lparr>logged := logged s1 @ [ERROR msg]\<rparr>
                    | Inr newLinks \<Rightarrow>
                        foldl enqueueLink
                          (s1\<lparr>logged := logged s1 @ [DEBUG_found_links (length newLinks) u (d + 1)]\<rparr>)
                          newLinks)
                 else s1))"

text \<open>\<open>batch.map(...)\<close>: every call runs to its \<open>await\<close>, in the order of the batch.\<close>

fun beginUrls :: "ScrapeItem list \<Rightarrow> state \<Rightarrow> state \<times> ScrapeItem list" where
  "beginUrls [] s = (s, [])"
| "beginUrls (item # items) s =
     (case processUrl_begin item s of
        (s1, started) \<Rightarrow>
          (case beginUrls items s1 of
             (s2, inflight) \<Rightarrow> (s2, (case started of None \<Rightarrow> [] | Some x \<Rightarrow> [x]) @ inflight)))"

fun beginResults ::
  "ScrapeResult list \<Rightarrow> ScrapeSchema \<Rightarrow> EmbedEncoder \<Rightarrow> state
     \<Rightarrow> state \<times> (ScrapeResult \<times> string) list" where
  "beginResults [] sch enc s = (s, [])"
| "beginResults (r # rs) sch enc s =
     (case processScrapedResult_begin r sch enc s of
        (s1, started) \<Rightarrow>
          (case beginResults rs sch enc s1 of
             (s2, inflight) \<Rightarrow> (s2, (case started of None \<Rightarrow> [] | Some x \<Rightarrow> [x]) @ inflight)))"

text \<open>
  \<open>processBatch\<close>. \<open>Promise.allSettled\<close> waits for every call and drops the
  rejections; \<open>global.gc\<close> has no effect on the state.
\<close>

definition processBatch :: "env \<Rightarrow> int \<Rightarrow> state \<Rightarrow> state" where
  "processBatch E batchSize s =
     (case splice0 (results s) batchSize of
        (batch, rest) \<Rightarrow>
          (let s1 = s\<lparr>results := rest\<rparr>
           in case encoder s1 of
                None \<Rightarrow> s1
              | Some enc \<Rightarrow>
                  (case schema s1 of
                     None \<Rightarrow> s1
                   | Some sch \<Rightarrow>
                       (case beginResults batch sch enc s1 of
                          (s2, inflight) \<Rightarrow>
                            (let s3 = foldl (\<lambda>t rm. fst (processScrapedResult_resume E enc rm t)) s2
                                        (settle (\<lambda>ps. extractPick E (map snd ps)) inflight);
                                 s4 = s3\<lparr>results := []\<rparr>
                             in if length (queue s4) > 10000 then
                                  (let queueArray = queue s4;
                                       last10k = slice_from queueArray (- 10000)
                                   in s4\<lparr>queue := foldl set_add [] last10k\<rparr>)
                                else s4)))))"

text \<open>The body of the \<open>while\<close> loop of \<open>scrapeAll\<close> up to the end of
  \<open>await Promise.allSettled(promises)\<close>.\<close>

definition fetchBatch :: "env \<Rightarrow> int \<Rightarrow> state \<Rightarrow> state" where
  "fetchBatch E concurrency s =
     (let batch = slice (queue s) 0 concurrency;
          s1 = s\<lparr>queue := foldl set_delete (queue s) batch\<rparr>
      in case beginUrls (map (\<lambda>u. \<lparr>ScrapeItem.url = u, depth = 0\<rparr>) batch) s1 of
           (s2, inflight) \<Rightarrow>
             foldl (\<lambda>t item. processUrl_resume E item t) s2
               (settle (\<lambda>items. fetchPick E (map ScrapeItem.url items)) inflight))"

text \<open>The whole body of the loop.\<close>

definition crawlIteration :: "env \<Rightarrow> int \<Rightarrow> int \<Rightarrow> state \<Rightarrow> state" where
  "crawlIteration E concurrency batchSize s =
     (let s1 = fetchBatch E concurrency s
      in if int (length (results s1)) \<ge> batchSize \<and> encoder s1 \<noteq> None \<and> schema s1 \<noteq> None
         then processBatch E batchSize s1 else s1)"

text \<open>\<open>while (this.queue.size > 0)\<close>; \<open>None\<close> is a loop that never ends.\<close>

partial_function (option) crawlLoop :: "env \<Rightarrow> int \<Rightarrow> int \<Rightarrow> state \<Rightarrow> state option" where
  "crawlLoop E concurrency batchSize s =
     (if length (queue s) > 0 then crawlLoop E concurrency batchSize (crawlIteration E concurrency batchSize s)
      else Some s)"

declare crawlLoop.simps [code]

text \<open>The state after at most \<open>n\<close> turns of the loop.\<close>

fun crawlAfter :: "nat \<Rightarrow> env \<Rightarrow> int \<Rightarrow> int \<Rightarrow> state \<Rightarrow> state" where
  "crawlAfter 0 E concurrency batchSize s = s"
| "crawlAfter (Suc n) E concurrency batchSize s =
     (if length (queue s) > 0 then crawlAfter n E concurrency batchSize (crawlIteration E concurrency batchSize s)
      else s)"

text \<open>The assignments and \<open>this.queue.add(baseUrl)\<close> before the loop.\<close>

definition scrapeAll_init ::
  "string \<Rightarrow> int \<Rightarrow> EmbedEncoder option \<Rightarrow> ScrapeSchema option \<Rightarrow> state \<Rightarrow> state" where
  "scrapeAll_init baseUrl maxDepth' enc sch s =
     s\<lparr>maxDepth := maxDepth', encoder := enc, schema := sch, queue := set_add (queue s) baseUrl\<rparr>"

text \<open>The flush after the loop.\<close>

definition scrapeAll_flush :: "env \<Rightarrow> state \<Rightarrow> state" where
  "scrapeAll_flush E s =
     (if length (results s) > 0 \<and> encoder s \<noteq> None \<and> schema s \<noteq> None
      then processBatch E (int (length (results s))) s else s)"

text \<open>
  \<open>scrapeAll\<close>: the final state and the array the promise resolves to. An argument
  left out is \<open>None\<close> for \<open>encoder\<close> and \<open>schema\<close>; the defaults of the numeric
  arguments (3, 10, 100) are the caller's to pass.
\<close>

definition scrapeAll ::
  "env \<Rightarrow> string \<Rightarrow> int \<Rightarrow> int \<Rightarrow> int \<Rightarrow> EmbedEncoder option \<Rightarrow> ScrapeSchema option \<Rightarrow> state
     \<Rightarrow> (state \<times> ScrapeResult list) option" where
  "scrapeAll E baseUrl maxDepth' concurrency batchSize enc sch s =
     (case crawlLoop E concurrency batchSize (scrapeAll_init baseUrl maxDepth' enc sch s) of
        None \<Rightarrow> None
      | Some s1 \<Rightarrow> (let s2 = scrapeAll_flush E s1 in Some (s2, results s2)))"

text \<open>A new \<open>ScraperUtils\<close> in a process that has stored, logged and requested nothing.\<close>

definition newScraper :: state where
  "newScraper =
     \<lparr>visited = [], queue = [], encoder = None, schema = None, results = [], maxDepth = 10,
      embedding = [], logged = [], requests = [], handed = [], extractCalls = [], ticks = 0\<rparr>"

section \<open>Predicates of the specification\<close>

text \<open>The requests issued between an earlier state \<open>s\<close> and a later state \<open>s'\<close>.\<close>

definition newRequests :: "state \<Rightarrow> state \<Rightarrow> string list" where
  "newRequests s s' = drop (length (requests s)) (requests s')"

text \<open>
  From \<open>s\<close> to \<open>s'\<close> the request trace has only grown, no URL was requested twice, no
  URL that \<open>s\<close> had visited was requested, and \<open>visited\<close> has grown by exactly the
  requested URLs.
\<close>

definition fetchesOnce :: "state \<Rightarrow> state \<Rightarrow> bool" where
  "fetchesOnce s s' =
     (requests s' = requests s @ newRequests s s' \<and> distinct (newRequests s s')
      \<and> set (newRequests s s') \<inter> set (visited s) = {}
      \<and> set (visited s') = set (visited s) \<union> set (newRequests s s'))"

text \<open>The hostname of a URL string, if it parses.\<close>

definition hostnameOf :: "env \<Rightarrow> string \<Rightarrow> string option" where
  "hostnameOf E u = map_option hostname (urlParse E u)"

text \<open>\<open>u\<close> is the seed, or it parses and has the hostname of the seed.\<close>

definition onSeedHost :: "env \<Rightarrow> string \<Rightarrow> string \<Rightarrow> bool" where
  "onSeedHost E seed u = (u = seed \<or> (hostnameOf E u \<noteq> None \<and> hostnameOf E u = hostnameOf E seed))"

text \<open>Every URL waiting in the queue is on the host of the seed.\<close>

definition queueOnSeedHost :: "env \<Rightarrow> string \<Rightarrow> state \<Rightarrow> bool" where
  "queueOnSeedHost E seed s = list_all (onSeedHost E seed) (queue s)"

text \<open>The cosine distance of a stored vector from the query, \<open>None\<close> for \<open>NULL\<close>.\<close>

definition distanceFrom :: "env \<Rightarrow> real list \<Rightarrow> real list \<Rightarrow> real option" where
  "distanceFrom E queryEmbedding v =
     (case vec_distance_cosine E v (map (toFloat32 E) queryEmbedding) of
        Inl e \<Rightarrow> None
      | Inr d \<Rightarrow> d)"

text \<open>
  The extension of a path in the usual sense, which is how the specification words the
  filter: what follows the last dot of the last path segment, if that segment has a dot.
\<close>

definition lastSegment :: "string \<Rightarrow> string" where
  "lastSegment p = rev (takeWhile (\<lambda>c. c \<noteq> CHR ''/'') (rev p))"

definition extensionOf :: "string \<Rightarrow> string option" where
  "extensionOf p =
     (let seg = lastSegment p
      in if CHR ''.'' \<in> set seg then Some (rev (takeWhile (\<lambda>c. c \<noteq> CHR ''.'') (rev seg)))
         else None)"

text \<open>Eligibility as the specification states it: no fragment, and no extension or the
  extension \<open>html\<close> or \<open>htm\<close> in any case.\<close>

definition eligible_spec :: "env \<Rightarrow> string \<Rightarrow> bool" where
  "eligible_spec E u =
     (CHR ''#'' \<notin> set u \<and>
      (case urlParse E u of
         None \<Rightarrow> False
       | Some urlObj \<Rightarrow>
           (case extensionOf (pathname urlObj) of
              None \<Rightarrow> True
            | Some e \<Rightarrow> map toLowerCase e = ''html'' \<or> map toLowerCase e = ''htm'')))"

text \<open>The result that the settlement of one request appends to \<open>results\<close>.\<close>

definition pageResult :: "env \<Rightarrow> ScrapeItem \<Rightarrow> ScrapeResult list" where
  "pageResult E item =
     (case fetchGet E (ScrapeItem.url item) of
        Inl e \<Rightarrow> []
      | Inr body \<Rightarrow> [\<lparr>ScrapeResult.url = ScrapeItem.url item, ScrapeResult.content = body\<rparr>])"

text \<open>The links that the settlement of one request may enqueue.\<close>

definition pageLinks :: "env \<Rightarrow> ScrapeItem \<Rightarrow> string list" where
  "pageLinks E item =
     (case fetchGet E (ScrapeItem.url item) of
        Inl e \<Rightarrow> []
      | Inr body \<Rightarrow> (case extractLinks E body (ScrapeItem.url item) of Inl e \<Rightarrow> [] | Inr ls \<Rightarrow> ls))"

text \<open>
  A site is closed when every link that the crawler extracts from a page of the site
  (a page that can be fetched) is again a URL of the site.
\<close>

definition closedSite :: "env \<Rightarrow> string list \<Rightarrow> bool" where
  "closedSite E site =
     (\<forall>u \<in> set site. set (pageLinks E \<lparr>ScrapeItem.url = u, depth = 0\<rparr>) \<subseteq> set site)"

text \<open>The order in which a turn of the loop makes progress: fewer URLs of the site left
  to visit, or as many and a shorter queue.\<close>

definition crawlMeasure :: "string set \<Rightarrow> (state \<times> state) set" where
  "crawlMeasure U = measures [\<lambda>s. card (U - set (visited s)), \<lambda>s. length (queue s)]"

section \<open>A small site to run the crawler on\<close>

text \<open>
  The index page links to page 1, to another host and to a fragment of page 1; page 1
  links to pages 2, 3 and 4; the request for page 4 times out. The URL table gives, for
  each URL that occurs, the fields that \<open>new URL\<close> computes for it.
\<close>

definition anchor :: "string \<Rightarrow> string" where
  "anchor u = ''<a href='' @ [CHR 0x22] @ u @ [CHR 0x22] @ ''>''"

definition demoUrls :: "(string \<times> URL) list" where
  "demoUrls =
     [(''http://a.test/'', \<lparr>href = ''http://a.test/'', hostname = ''a.test'', pathname = ''/''\<rparr>),
      (''http://a.test/1'', \<lparr>href = ''http://a.test/1'', hostname = ''a.test'', pathname = ''/1''\<rparr>),
      (''http://a.test/2'', \<lparr>href = ''http://a.test/2'', hostname = ''a.test'', pathname = ''/2''\<rparr>),
      (''http://a.test/3'', \<lparr>href = ''http://a.test/3'', hostname = ''a.test'', pathname = ''/3''\<rparr>),
      (''http://a.test/4'', \<lparr>href = ''http://a.test/4'', hostname = ''a.test'', pathname = ''/4''\<rparr>),
      (''http://b.test/x'', \<lparr>href = ''http://b.test/x'', hostname = ''b.test'', pathname = ''/x''\<rparr>),
      (''http://a.test/1#f'', \<lparr>href = ''http://a.test/1#f'', hostname = ''a.test'', pathname = ''/1''\<rparr>)]"

definition demoPages :: "(string \<times> string) list" where
  "demoPages =
     [(''http://a.test/'',
         anchor ''http://a.test/1'' @ anchor ''http://b.test/x'' @ anchor ''http://a.test/1#f''),
      (''http://a.test/1'',
         anchor ''http://a.test/2'' @ anchor ''http://a.test/3'' @ anchor ''http://a.test/4''),
      (''http://a.test/2'', ''two''),
      (''http://a.test/3'', ''three'')]"

text \<open>Every \<open>href\<close> of the site is absolute, so resolving it ignores the base. Of the
  requests in flight the last one issued settles first.\<close>

definition demoEnv :: env where
  "demoEnv =
     \<lparr>urlParse = map_of demoUrls,
      urlResolve = (\<lambda>h base. map_of demoUrls h),
      fetchGet = (\<lambda>u. case map_of demoPages u of
                         None \<Rightarrow> Inl (FetchError ''timeout'')
                       | Some body \<Rightarrow> Inr body),
      fetchPick = (\<lambda>us. length us - 1),
      extractPick = (\<lambda>ts. 0),
      generateId = (\<lambda>n. replicate (Suc n) CHR ''a''),
      now = (\<lambda>n. int n),
      toFloat32 = (\<lambda>x. x),
      vec_distance_cosine =
        (\<lambda>v q. if v = [1] then Inr (Some (4 / 10))
               else if v = [2] then Inr (Some (1 / 10))
               else if v = [3] then Inr (Some (9 / 10))
               else Inr None)\<rparr>"

text \<open>The URLs of the examples of the extension filter.\<close>

definition guideUrls :: "(string \<times> URL) list" where
  "guideUrls =
     [(''http://a.test/v1.2/guide'',
         \<lparr>href = ''http://a.test/v1.2/guide'', hostname = ''a.test'', pathname = ''/v1.2/guide''\<rparr>),
      (''https://nodejs.org/docs/latest-v24.x/api/'',
         \<lparr>href = ''https://nodejs.org/docs/latest-v24.x/api/'', hostname = ''nodejs.org'',
          pathname = ''/docs/latest-v24.x/api/''\<rparr>),
      (''http://a.test/guide'',
         \<lparr>href = ''http://a.test/guide'', hostname = ''a.test'', pathname = ''/guide''\<rparr>),
      (''http://a.test/guide.html'',
         \<lparr>href = ''http://a.test/guide.html'', hostname = ''a.test'', pathname = ''/guide.html''\<rparr>),
      (''http://a.test/guide.pdf'',
         \<lparr>href = ''http://a.test/guide.pdf'', hostname = ''a.test'', pathname = ''/guide.pdf''\<rparr>),
      (''http://a.test/guide#section'',
         \<lparr>href = ''http://a.test/guide#section'', hostname = ''a.test'', pathname = ''/guide''\<rparr>)]"

definition guideEnv :: env where
  "guideEnv = demoEnv\<lparr>urlParse := map_of guideUrls\<rparr>"

definition demoEncoder :: EmbedEncoder where
  "demoEncoder = \<lparr>pipeline = Some (\<lambda>ss. Inr (map (\<lambda>t. [1, 0]) ss)), initialized = True\<rparr>"

text \<open>A schema whose \<open>parse\<close> finds no content container in page 2.\<close>

definition demoSchema :: ScrapeSchema where
  "demoSchema =
     \<lparr>url = [''http://a.test/''],
      parse = (\<lambda>c. if c = ''two'' then None else Some c)\<rparr>"

definition demoRows :: "EmbeddingStored list" where
  "demoRows =
     [\<lparr>id' = ''r1'', source = ''http://a.test/'', content = ''one'', vector = [1], timestamp = 1\<rparr>,
      \<lparr>id' = ''r2'', source = ''http://a.test/1'', content = ''two'', vector = [2], timestamp = 2\<rparr>,
      \<lparr>id' = ''r3'', source = ''http://a.test/3'', content = ''three'', vector = [3], timestamp = 3\<rparr>]"

text \<open>A scraper with an encoder, a schema and 10002 distinct entries in its queue.\<close>

definition crowdedScraper :: state where
  "crowdedScraper =
     newScraper\<lparr>encoder := Some demoEncoder, schema := Some demoSchema,
                queue := map (\<lambda>n. replicate n CHR ''a'') [0..<10002]\<rparr>"

text \<open>A scraper about to request pages 2, 3 and 4 in one batch.\<close>

definition threePending :: state where
  "threePending =
     newScraper\<lparr>queue := [''http://a.test/2'', ''http://a.test/3'', ''http://a.test/4'']\<rparr>"

text \<open>The URLs of the small site that share the host of the index page.\<close>

definition demoSite :: "string list" where
  "demoSite = [''http://a.test/'', ''http://a.test/1'', ''http://a.test/2'', ''http://a.test/3'',
               ''http://a.test/4'']"

section \<open>Sets, settlement order and frame lemmas\<close>

lemma set_set_add [simp]: "set (set_add xs x) = insert x (set xs)"
  by (auto simp: set_add_def)

lemma distinct_set_add [simp]: "distinct (set_add xs x) = distinct xs"
  by (simp add: set_add_def)

lemma set_set_delete [simp]: "set (set_delete xs x) = set xs - {x}"
  by (auto simp: set_delete_def)

lemma distinct_set_delete [simp]: "distinct xs \<Longrightarrow> distinct (set_delete xs x)"
  by (simp add: set_delete_def distinct_removeAll)

lemma set_foldl_set_delete: "set (foldl set_delete xs ys) = set xs - set ys"
  by (induction ys arbitrary: xs) auto

lemma distinct_foldl_set_delete: "distinct xs \<Longrightarrow> distinct (foldl set_delete xs ys)"
  by (induction ys arbitrary: xs) auto

lemma foldl_set_add_distinct: "distinct (acc @ xs) \<Longrightarrow> foldl set_add acc xs = acc @ xs"
  by (induction xs arbitrary: acc) (auto simp: set_add_def)

lemma set_settle [simp]: "set (settle pick xs) = set xs"
proof (induction pick xs rule: settle.induct)
  case (1 pick xs)
  show ?case
  proof (cases "xs = []")
    case True
    then show ?thesis by simp
  next
    case False
    define i where "i = pick xs mod length xs"
    have i: "i < length xs"
      using False by (simp add: i_def)
    have step: "settle pick xs = xs ! i # settle pick (take i xs @ drop (Suc i) xs)"
      using False by (subst settle.simps) (simp add: i_def Let_def)
    have ih: "set (settle pick (take i xs @ drop (Suc i) xs)) = set (take i xs @ drop (Suc i) xs)"
      using "1.IH" [OF False i_def] .
    have "xs = take i xs @ xs ! i # drop (Suc i) xs"
      using i by (simp add: id_take_nth_drop)
    then have "set xs = insert (xs ! i) (set (take i xs @ drop (Suc i) xs))"
      by (metis Un_insert_right list.simps(15) set_append)
    with step ih show ?thesis
      by simp
  qed
qed

declare settle.simps [simp del]

subsection \<open>What each step leaves unchanged\<close>

lemma processUrl_begin_fields:
  assumes "processUrl_begin item s = (s', st)"
  shows "queue s' = queue s" "results s' = results s" "encoder s' = encoder s"
    "schema s' = schema s" "maxDepth s' = maxDepth s" "handed s' = handed s"
    "embedding s' = embedding s" "extractCalls s' = extractCalls s" "logged s' = logged s"
  using assms by (auto simp: processUrl_begin_def split: if_splits)

lemma beginUrls_fields:
  assumes "beginUrls items s = (s', inflight)"
  shows "queue s' = queue s \<and> results s' = results s \<and> encoder s' = encoder s
    \<and> schema s' = schema s \<and> maxDepth s' = maxDepth s \<and> handed s' = handed s
    \<and> embedding s' = embedding s \<and> extractCalls s' = extractCalls s \<and> logged s' = logged s"
  using assms
proof (induction items arbitrary: s s' inflight)
  case Nil
  then show ?case by simp
next
  case (Cons item items)
  obtain s1 st where b: "processUrl_begin item s = (s1, st)"
    by (cases "processUrl_begin item s")
  obtain s2 fl where r: "beginUrls items s1 = (s2, fl)"
    by (cases "beginUrls items s1")
  from Cons.prems b r have "s' = s2"
    by simp
  with Cons.IH [OF r] processUrl_begin_fields [OF b] show ?case
    by simp
qed

lemma enqueueLink_fields [simp]:
  "visited (enqueueLink s l) = visited s" "requests (enqueueLink s l) = requests s"
  "results (enqueueLink s l) = results s" "encoder (enqueueLink s l) = encoder s"
  "schema (enqueueLink s l) = schema s" "maxDepth (enqueueLink s l) = maxDepth s"
  "handed (enqueueLink s l) = handed s" "embedding (enqueueLink s l) = embedding s"
  "extractCalls (enqueueLink s l) = extractCalls s" "logged (enqueueLink s l) = logged s"
  by (simp_all add: enqueueLink_def)

lemma foldl_enqueueLink_fields [simp]:
  "visited (foldl enqueueLink s ls) = visited s" "requests (foldl enqueueLink s ls) = requests s"
  "results (foldl enqueueLink s ls) = results s" "encoder (foldl enqueueLink s ls) = encoder s"
  "schema (foldl enqueueLink s ls) = schema s" "maxDepth (foldl enqueueLink s ls) = maxDepth s"
  "handed (foldl enqueueLink s ls) = handed s" "embedding (foldl enqueueLink s ls) = embedding s"
  "extractCalls (foldl enqueueLink s ls) = extractCalls s"
  "logged (foldl enqueueLink s ls) = logged s"
  by (induction ls arbitrary: s; simp)+

lemma processUrl_resume_fields [simp]:
  "visited (processUrl_resume E item s) = visited s"
  "requests (processUrl_resume E item s) = requests s"
  "encoder (processUrl_resume E item s) = encoder s"
  "schema (processUrl_resume E item s) = schema s"
  "maxDepth (processUrl_resume E item s) = maxDepth s"
  "handed (processUrl_resume E item s) = handed s"
  "embedding (processUrl_resume E item s) = embedding s"
  "extractCalls (processUrl_resume E item s) = extractCalls s"
  by (simp_all add: processUrl_resume_def Let_def split: sum.splits)

lemma foldl_processUrl_resume_fields [simp]:
  "visited (foldl (\<lambda>t item. processUrl_resume E item t) s items) = visited s"
  "requests (foldl (\<lambda>t item. processUrl_resume E item t) s items) = requests s"
  "encoder (foldl (\<lambda>t item. processUrl_resume E item t) s items) = encoder s"
  "schema (foldl (\<lambda>t item. processUrl_resume E item t) s items) = schema s"
  "maxDepth (foldl (\<lambda>t item. processUrl_resume E item t) s items) = maxDepth s"
  "handed (foldl (\<lambda>t item. processUrl_resume E item t) s items) = handed s"
  "embedding (foldl (\<lambda>t item. processUrl_resume E item t) s items) = embedding s"
  "extractCalls (foldl (\<lambda>t item. processUrl_resume E item t) s items) = extractCalls s"
  by (induction items arbitrary: s; simp)+

lemma processScrapedResult_begin_fields:
  assumes "processScrapedResult_begin r sch enc s = (s', st)"
  shows "visited s' = visited s \<and> requests s' = requests s \<and> queue s' = queue s
    \<and> results s' = results s \<and> encoder s' = encoder s \<and> schema s' = schema s
    \<and> maxDepth s' = maxDepth s \<and> embedding s' = embedding s \<and> logged s' = logged s
    \<and> handed s' = handed s @ [r]"
  using assms
  by (auto simp: processScrapedResult_begin_def Let_def split: option.splits if_splits)

lemma beginResults_fields:
  assumes "beginResults rs sch enc s = (s', inflight)"
  shows "visited s' = visited s \<and> requests s' = requests s \<and> queue s' = queue s
    \<and> results s' = results s \<and> encoder s' = encoder s \<and> schema s' = schema s
    \<and> maxDepth s' = maxDepth s \<and> embedding s' = embedding s \<and> logged s' = logged s
    \<and> handed s' = handed s @ rs"
  using assms
proof (induction rs arbitrary: s s' inflight)
  case Nil
  then show ?case by simp
next
  case (Cons r rs)
  obtain s1 st where b: "processScrapedResult_begin r sch enc s = (s1, st)"
    by (cases "processScrapedResult_begin r sch enc s")
  obtain s2 fl where r: "beginResults rs sch enc s1 = (s2, fl)"
    by (cases "beginResults rs sch enc s1")
  from Cons.prems b r have "s' = s2"
    by simp
  with Cons.IH [OF r] processScrapedResult_begin_fields [OF b] show ?case
    by simp
qed

lemma processScrapedResult_resume_fields [simp]:
  "visited (fst (processScrapedResult_resume E enc rm s)) = visited s"
  "requests (fst (processScrapedResult_resume E enc rm s)) = requests s"
  "queue (fst (processScrapedResult_resume E enc rm s)) = queue s"
  "results (fst (processScrapedResult_resume E enc rm s)) = results s"
  "encoder (fst (processScrapedResult_resume E enc rm s)) = encoder s"
  "schema (fst (processScrapedResult_resume E enc rm s)) = schema s"
  "maxDepth (fst (processScrapedResult_resume E enc rm s)) = maxDepth s"
  "handed (fst (processScrapedResult_resume E enc rm s)) = handed s"
  "extractCalls (fst (processScrapedResult_resume E enc rm s)) = extractCalls s"
  by (simp_all add: processScrapedResult_resume_def Let_def split: prod.splits sum.splits)

lemma foldl_processScrapedResult_resume_fields [simp]:
  "visited (foldl (\<lambda>t rm. fst (processScrapedResult_resume E enc rm t)) s rms) = visited s"
  "requests (foldl (\<lambda>t rm. fst (processScrapedResult_resume E enc rm t)) s rms) = requests s"
  "queue (foldl (\<lambda>t rm. fst (processScrapedResult_resume E enc rm t)) s rms) = queue s"
  "results (foldl (\<lambda>t rm. fst (processScrapedResult_resume E enc rm t)) s rms) = results s"
  "encoder (foldl (\<lambda>t rm. fst (processScrapedResult_resume E enc rm t)) s rms) = encoder s"
  "schema (foldl (\<lambda>t rm. fst (processScrapedResult_resume E enc rm t)) s rms) = schema s"
  "maxDepth (foldl (\<lambda>t rm. fst (processScrapedResult_resume E enc rm t)) s rms) = maxDepth s"
  "handed (foldl (\<lambda>t rm. fst (processScrapedResult_resume E enc rm t)) s rms) = handed s"
  "extractCalls (foldl (\<lambda>t rm. fst (processScrapedResult_resume E enc rm t)) s rms) = extractCalls s"
  by (induction rms arbitrary: s; simp)+

lemma processBatch_fields [simp]:
  "visited (processBatch E b s) = visited s"
  "requests (processBatch E b s) = requests s"
  "encoder (processBatch E b s) = encoder s"
  "schema (processBatch E b s) = schema s"
  "maxDepth (processBatch E b s) = maxDepth s"
  by (auto simp: processBatch_def Let_def split: prod.splits option.splits
      dest!: beginResults_fields)

lemma fetchBatch_fields [simp]:
  "encoder (fetchBatch E c s) = encoder s"
  "schema (fetchBatch E c s) = schema s"
  "maxDepth (fetchBatch E c s) = maxDepth s"
  "handed (fetchBatch E c s) = handed s"
  "embedding (fetchBatch E c s) = embedding s"
  "extractCalls (fetchBatch E c s) = extractCalls s"
  by (auto simp: fetchBatch_def Let_def split: prod.splits dest!: beginUrls_fields)

lemma crawlIteration_fields [simp]:
  "encoder (crawlIteration E c b s) = encoder s"
  "schema (crawlIteration E c b s) = schema s"
  "maxDepth (crawlIteration E c b s) = maxDepth s"
  by (simp_all add: crawlIteration_def Let_def)

lemma crawlAfter_fields [simp]:
  "encoder (crawlAfter n E c b s) = encoder s"
  "schema (crawlAfter n E c b s) = schema s"
  "maxDepth (crawlAfter n E c b s) = maxDepth s"
  by (induction n arbitrary: s; simp)+

section \<open>At most one request per URL\<close>

lemma fetchesOnceI:
  assumes "requests s' = requests s @ new" "distinct new" "set new \<inter> set (visited s) = {}"
    "set (visited s') = set (visited s) \<union> set new"
  shows "fetchesOnce s s'"
  using assms by (simp add: fetchesOnce_def newRequests_def)

lemma fetchesOnce_same:
  "requests s' = requests s \<Longrightarrow> visited s' = visited s \<Longrightarrow> fetchesOnce s s'"
  by (rule fetchesOnceI [where new = "[]"]) simp_all

lemma fetchesOnce_trans:
  assumes "fetchesOnce s s'" "fetchesOnce s' s''"
  shows "fetchesOnce s s''"
proof (rule fetchesOnceI [where new = "newRequests s s' @ newRequests s' s''"])
  show "requests s'' = requests s @ newRequests s s' @ newRequests s' s''"
    using assms by (simp add: fetchesOnce_def)
  show "distinct (newRequests s s' @ newRequests s' s'')"
    using assms by (auto simp: fetchesOnce_def)
  show "set (newRequests s s' @ newRequests s' s'') \<inter> set (visited s) = {}"
    using assms by (auto simp: fetchesOnce_def)
  show "set (visited s'') = set (visited s) \<union> set (newRequests s s' @ newRequests s' s'')"
    using assms by (auto simp: fetchesOnce_def)
qed

lemma processUrl_begin_fetchesOnce:
  "processUrl_begin item s = (s', st) \<Longrightarrow> fetchesOnce s s'"
  by (rule fetchesOnceI [where new = "case st of None \<Rightarrow> [] | Some i \<Rightarrow> [ScrapeItem.url i]"])
    (auto simp: processUrl_begin_def set_has_def split: if_splits)

lemma beginUrls_fetchesOnce:
  "beginUrls items s = (s', inflight) \<Longrightarrow> fetchesOnce s s'"
proof (induction items arbitrary: s s' inflight)
  case Nil
  then show ?case by (simp add: fetchesOnce_same)
next
  case (Cons item items)
  obtain s1 st where b: "processUrl_begin item s = (s1, st)"
    by (cases "processUrl_begin item s")
  obtain s2 fl where r: "beginUrls items s1 = (s2, fl)"
    by (cases "beginUrls items s1")
  from Cons.prems b r have "s' = s2"
    by simp
  with Cons.IH [OF r] processUrl_begin_fetchesOnce [OF b] show ?case
    by (auto intro: fetchesOnce_trans)
qed

lemma fetchBatch_fetchesOnce: "fetchesOnce s (fetchBatch E c s)"
proof -
  define s1 where "s1 = s\<lparr>queue := foldl set_delete (queue s) (slice (queue s) 0 c)\<rparr>"
  obtain s2 fl where b:
    "beginUrls (map (\<lambda>u. \<lparr>ScrapeItem.url = u, depth = 0\<rparr>) (slice (queue s) 0 c)) s1 = (s2, fl)"
    by (cases "beginUrls (map (\<lambda>u. \<lparr>ScrapeItem.url = u, depth = 0\<rparr>) (slice (queue s) 0 c)) s1")
  have "fetchesOnce s s1"
    by (simp add: s1_def fetchesOnce_same)
  moreover have "fetchesOnce s1 s2"
    using b by (rule beginUrls_fetchesOnce)
  moreover have "fetchesOnce s2 (fetchBatch E c s)"
    using b by (simp add: fetchBatch_def Let_def s1_def fetchesOnce_same)
  ultimately show ?thesis
    by (blast intro: fetchesOnce_trans)
qed

lemma crawlIteration_fetchesOnce: "fetchesOnce s (crawlIteration E c b s)"
proof -
  have "fetchesOnce (fetchBatch E c s) (crawlIteration E c b s)"
    by (simp add: crawlIteration_def Let_def fetchesOnce_same)
  with fetchBatch_fetchesOnce show ?thesis
    by (blast intro: fetchesOnce_trans)
qed

lemma crawlAfter_fetchesOnce: "fetchesOnce s (crawlAfter n E c b s)"
proof (induction n arbitrary: s)
  case 0
  show ?case by (simp add: fetchesOnce_same)
next
  case (Suc n)
  show ?case
    using crawlIteration_fetchesOnce [of s E c b] Suc [of "crawlIteration E c b s"]
    by (auto intro: fetchesOnce_trans simp: fetchesOnce_same)
qed

lemma crawlLoop_crawlAfter:
  assumes "crawlLoop E c b s = Some s'"
  shows "\<exists>n. s' = crawlAfter n E c b s \<and> queue s' = []"
proof (rule crawlLoop.raw_induct
    [where P = "\<lambda>E c b s s'. \<exists>n. s' = crawlAfter n E c b s \<and> queue s' = []", OF _ assms])
  fix loop :: "env \<Rightarrow> int \<Rightarrow> int \<Rightarrow> state \<Rightarrow> state option" and E c b s s'
  assume IH: "\<And>E c b s s'. loop E c b s = Some s'
      \<Longrightarrow> \<exists>n. s' = crawlAfter n E c b s \<and> queue s' = []"
    and body: "(if 0 < length (queue s) then loop E c b (crawlIteration E c b s) else Some s) = Some s'"
  show "\<exists>n. s' = crawlAfter n E c b s \<and> queue s' = []"
  proof (cases "0 < length (queue s)")
    case True
    with body have "loop E c b (crawlIteration E c b s) = Some s'"
      by simp
    from IH [OF this] obtain n where
      n: "s' = crawlAfter n E c b (crawlIteration E c b s)" and q: "queue s' = []"
      by blast
    from True n have "s' = crawlAfter (Suc n) E c b s"
      by simp
    with q show ?thesis by blast
  next
    case False
    with body have "s' = crawlAfter 0 E c b s" and "queue s' = []"
      by simp_all
    then show ?thesis by blast
  qed
qed

lemma scrapeAll_flush_fetchesOnce: "fetchesOnce s (scrapeAll_flush E s)"
  by (simp add: scrapeAll_flush_def fetchesOnce_same)

lemma scrapeAll_init_fetchesOnce: "fetchesOnce s (scrapeAll_init baseUrl d enc sch s)"
  by (simp add: scrapeAll_init_def fetchesOnce_same)

text \<open>
  C1. In every crawl run, from any state of an instance, after any number of turns of the
  loop and at the return of \<open>scrapeAll\<close>: the requests of the run are pairwise distinct,
  none of them is for a URL that was already in \<open>visited\<close>, and every requested URL is in
  \<open>visited\<close>. A URL in \<open>visited\<close> is therefore never requested again, however often it
  is found as a link.
\<close>

theorem at_most_once_fetch:
  assumes "s' = crawlAfter n E concurrency batchSize (scrapeAll_init baseUrl d enc sch s)
    \<or> scrapeAll E baseUrl d concurrency batchSize enc sch s = Some (s', r)"
  shows "requests s' = requests s @ newRequests s s' \<and> distinct (newRequests s s')
    \<and> set (newRequests s s') \<inter> set (visited s) = {}
    \<and> set (visited s') = set (visited s) \<union> set (newRequests s s')"
proof -
  have init: "fetchesOnce s (scrapeAll_init baseUrl d enc sch s)"
    by (rule scrapeAll_init_fetchesOnce)
  have loop: "fetchesOnce s (crawlAfter k E concurrency batchSize (scrapeAll_init baseUrl d enc sch s))"
    for k
    using init crawlAfter_fetchesOnce by (blast intro: fetchesOnce_trans)
  from assms have "fetchesOnce s s'"
  proof
    assume "s' = crawlAfter n E concurrency batchSize (scrapeAll_init baseUrl d enc sch s)"
    with loop show ?thesis
      by simp
  next
    assume "scrapeAll E baseUrl d concurrency batchSize enc sch s = Some (s', r)"
    then obtain s1 where
      l: "crawlLoop E concurrency batchSize (scrapeAll_init baseUrl d enc sch s) = Some s1"
      and s': "s' = scrapeAll_flush E s1"
      by (auto simp: scrapeAll_def Let_def split: option.splits)
    from crawlLoop_crawlAfter [OF l] obtain k where
      "s1 = crawlAfter k E concurrency batchSize (scrapeAll_init baseUrl d enc sch s)"
      by blast
    with loop have "fetchesOnce s s1"
      by simp
    with s' scrapeAll_flush_fetchesOnce show ?thesis
      by (blast intro: fetchesOnce_trans)
  qed
  then show ?thesis
    by (simp add: fetchesOnce_def)
qed

theorem at_most_once_fetch_witness:
  "requests (crawlAfter 2 demoEnv 2 1
       (scrapeAll_init ''http://a.test/'' 1 None None newScraper))
     = [''http://a.test/'', ''http://a.test/1'']
   \<and> distinct (newRequests newScraper (crawlAfter 2 demoEnv 2 1
       (scrapeAll_init ''http://a.test/'' 1 None None newScraper)))"
proof -
  have "requests (crawlAfter 2 demoEnv 2 1
       (scrapeAll_init ''http://a.test/'' 1 None None newScraper))
     = [''http://a.test/'', ''http://a.test/1'']"
    by code_simp
  moreover have "distinct (newRequests newScraper (crawlAfter 2 demoEnv 2 1
       (scrapeAll_init ''http://a.test/'' 1 None None newScraper)))"
    using at_most_once_fetch [OF disjI1 [OF refl], of 2 demoEnv 2 1 "''http://a.test/''" 1 None None newScraper]
    by blast
  ultimately show ?thesis
    by simp
qed

section \<open>The pending queue across an ingest batch\<close>

lemma processBatch_queue:
  assumes "encoder s = Some enc" "schema s = Some sch"
  shows "queue (processBatch E b s) =
    (if length (queue s) > 10000 then foldl set_add [] (slice_from (queue s) (- 10000)) else queue s)"
  using assms
  by (auto simp: processBatch_def Let_def split: prod.splits dest!: beginResults_fields)

lemma slice_from_tail:
  "0 < n \<Longrightarrow> slice_from xs (- int n) = drop (length xs - n) xs"
  by (auto simp: slice_from_def relIndex_def nat_diff_distrib' max_def)

section \<open>One batch of requests\<close>

lemma processUrl_begin_visited:
  "processUrl_begin item s = (s', st) \<Longrightarrow> set (visited s') = insert (ScrapeItem.url item) (set (visited s))"
  by (auto simp: processUrl_begin_def set_has_def split: if_splits)

lemma processUrl_begin_inflight:
  "processUrl_begin item s = (s', st)
    \<Longrightarrow> requests s' = requests s @ map ScrapeItem.url (case st of None \<Rightarrow> [] | Some x \<Rightarrow> [x])
      \<and> set (case st of None \<Rightarrow> [] | Some x \<Rightarrow> [x]) \<subseteq> {item}"
  by (auto simp: processUrl_begin_def split: if_splits)

lemma beginUrls_inflight:
  "beginUrls items s = (s', inflight)
    \<Longrightarrow> requests s' = requests s @ map ScrapeItem.url inflight \<and> set inflight \<subseteq> set items
      \<and> set (visited s') = set (visited s) \<union> ScrapeItem.url ` set items"
proof (induction items arbitrary: s s' inflight)
  case Nil
  then show ?case by simp
next
  case (Cons item items)
  obtain s1 st where b: "processUrl_begin item s = (s1, st)"
    by (cases "processUrl_begin item s")
  obtain s2 fl where r: "beginUrls items s1 = (s2, fl)"
    by (cases "beginUrls items s1")
  from Cons.prems b r have eq: "s' = s2" "inflight = (case st of None \<Rightarrow> [] | Some x \<Rightarrow> [x]) @ fl"
    by simp_all
  from Cons.IH [OF r] processUrl_begin_inflight [OF b] processUrl_begin_visited [OF b] eq
  show ?case
    by auto
qed

lemma scrapeUrl_cases:
  "(\<exists>msg. scrapeUrl E u = Inl msg \<and> (\<exists>e. fetchGet E u = Inl e))
    \<or> (\<exists>body. scrapeUrl E u = Inr body \<and> fetchGet E u = Inr body)"
  by (auto simp: scrapeUrl_def split: sum.splits thrown.splits)

lemma processUrl_resume_results:
  "results (processUrl_resume E item s) = results s @ pageResult E item"
  using scrapeUrl_cases [of E "ScrapeItem.url item"]
  by (auto simp: processUrl_resume_def pageResult_def Let_def split: sum.splits)

lemma foldl_processUrl_resume_results:
  "results (foldl (\<lambda>t item. processUrl_resume E item t) s items)
    = results s @ concat (map (pageResult E) items)"
  by (induction items arbitrary: s) (simp_all add: processUrl_resume_results)

lemma enqueueLink_queue:
  "set (queue (enqueueLink s l)) \<subseteq> set (queue s) \<union> ({l} - set (visited s))"
  by (auto simp: enqueueLink_def set_has_def)

lemma foldl_enqueueLink_queue:
  "set (queue (foldl enqueueLink s ls)) \<subseteq> set (queue s) \<union> (set ls - set (visited s))"
proof (induction ls arbitrary: s)
  case Nil
  show ?case by simp
next
  case (Cons l ls)
  have "set (queue (foldl enqueueLink (enqueueLink s l) ls))
      \<subseteq> set (queue (enqueueLink s l)) \<union> (set ls - set (visited s))"
    using Cons [of "enqueueLink s l"] by simp
  with enqueueLink_queue [of s l] show ?case
    by auto
qed

lemma distinct_queue_enqueueLink: "distinct (queue s) \<Longrightarrow> distinct (queue (enqueueLink s l))"
  by (simp add: enqueueLink_def)

lemma distinct_queue_foldl_enqueueLink:
  "distinct (queue s) \<Longrightarrow> distinct (queue (foldl enqueueLink s ls))"
  by (induction ls arbitrary: s) (simp_all add: distinct_queue_enqueueLink)

lemma processUrl_resume_queue:
  "set (queue (processUrl_resume E item s))
    \<subseteq> set (queue s) \<union> (set (pageLinks E item) - set (visited s))"
  using scrapeUrl_cases [of E "ScrapeItem.url item"]
    foldl_enqueueLink_queue [of _ "pageLinks E item"]
  by (auto simp: processUrl_resume_def pageLinks_def Let_def split: sum.splits
      dest!: subsetD [OF foldl_enqueueLink_queue])

lemma foldl_processUrl_resume_queue:
  "set (queue (foldl (\<lambda>t item. processUrl_resume E item t) s items))
    \<subseteq> set (queue s) \<union> ((\<Union>item \<in> set items. set (pageLinks E item)) - set (visited s))"
proof (induction items arbitrary: s)
  case Nil
  show ?case by simp
next
  case (Cons item items)
  have "set (queue (foldl (\<lambda>t item. processUrl_resume E item t) (processUrl_resume E item s) items))
      \<subseteq> set (queue (processUrl_resume E item s))
        \<union> ((\<Union>item \<in> set items. set (pageLinks E item)) - set (visited s))"
    using Cons [of "processUrl_resume E item s"] by simp
  with processUrl_resume_queue [of E item s] show ?case
    by auto
qed

lemma distinct_queue_processUrl_resume:
  "distinct (queue s) \<Longrightarrow> distinct (queue (processUrl_resume E item s))"
  by (auto simp: processUrl_resume_def Let_def distinct_queue_foldl_enqueueLink split: sum.splits)

lemma distinct_queue_foldl_processUrl_resume:
  "distinct (queue s) \<Longrightarrow> distinct (queue (foldl (\<lambda>t item. processUrl_resume E item t) s items))"
  by (induction items arbitrary: s) (simp_all add: distinct_queue_processUrl_resume)

lemma fetchBatch_decompose:
  "\<exists>s2 inflight order.
     beginUrls (map (\<lambda>u. \<lparr>ScrapeItem.url = u, depth = 0\<rparr>) (slice (queue s) 0 c))
       (s\<lparr>queue := foldl set_delete (queue s) (slice (queue s) 0 c)\<rparr>) = (s2, inflight)
     \<and> set order = set inflight
     \<and> fetchBatch E c s = foldl (\<lambda>t item. processUrl_resume E item t) s2 order"
proof -
  obtain s2 inflight where b:
    "beginUrls (map (\<lambda>u. \<lparr>ScrapeItem.url = u, depth = 0\<rparr>) (slice (queue s) 0 c))
       (s\<lparr>queue := foldl set_delete (queue s) (slice (queue s) 0 c)\<rparr>) = (s2, inflight)"
    by (cases "beginUrls (map (\<lambda>u. \<lparr>ScrapeItem.url = u, depth = 0\<rparr>) (slice (queue s) 0 c))
       (s\<lparr>queue := foldl set_delete (queue s) (slice (queue s) 0 c)\<rparr>)")
  define order where "order = settle (\<lambda>items. fetchPick E (map ScrapeItem.url items)) inflight"
  have "set order = set inflight"
    by (simp add: order_def)
  moreover have "fetchBatch E c s = foldl (\<lambda>t item. processUrl_resume E item t) s2 order"
    using b by (simp add: fetchBatch_def Let_def order_def)
  ultimately show ?thesis
    using b by blast
qed

lemma distinct_queue_fetchBatch:
  "distinct (queue s) \<Longrightarrow> distinct (queue (fetchBatch E c s))"
  using fetchBatch_decompose [of s c E]
  by (auto simp: distinct_queue_foldl_processUrl_resume distinct_foldl_set_delete
      dest!: beginUrls_fields)

lemma distinct_foldl_set_add: "distinct acc \<Longrightarrow> distinct (foldl set_add acc xs)"
  by (induction xs arbitrary: acc) simp_all

lemma set_foldl_set_add: "set (foldl set_add acc xs) = set acc \<union> set xs"
  by (induction xs arbitrary: acc) auto

lemma processBatch_queue_cases:
  "queue (processBatch E b s) = queue s
    \<or> queue (processBatch E b s) = foldl set_add [] (slice_from (queue s) (- 10000))"
  by (auto simp: processBatch_def Let_def split: prod.splits option.splits
      dest!: beginResults_fields)

lemma distinct_queue_processBatch:
  "distinct (queue s) \<Longrightarrow> distinct (queue (processBatch E b s))"
  using processBatch_queue_cases [of E b s] by (auto simp: distinct_foldl_set_add)

lemma set_queue_processBatch: "set (queue (processBatch E b s)) \<subseteq> set (queue s)"
  using processBatch_queue_cases [of E b s]
  by (auto simp: set_foldl_set_add slice_from_def dest: in_set_dropD)

lemma length_queue_processBatch: "length (queue (processBatch E b s)) \<le> length (queue s)"
proof -
  have "length (foldl set_add acc xs) \<le> length acc + length xs" for acc xs :: "string list"
  proof (induction xs arbitrary: acc)
    case Nil
    show ?case by simp
  next
    case (Cons x xs)
    have "length (set_add acc x) \<le> Suc (length acc)"
      by (simp add: set_add_def)
    with Cons [of "set_add acc x"] show ?case
      by simp
  qed
  from this [of "[]" "slice_from (queue s) (- 10000)"]
  have "length (foldl set_add [] (slice_from (queue s) (- 10000))) \<le> length (queue s)"
    by (simp add: slice_from_def)
  with processBatch_queue_cases [of E b s] show ?thesis
    by auto
qed

lemma distinct_queue_crawlIteration:
  "distinct (queue s) \<Longrightarrow> distinct (queue (crawlIteration E c b s))"
  by (simp add: crawlIteration_def Let_def distinct_queue_fetchBatch distinct_queue_processBatch)

lemma distinct_queue_crawlAfter:
  "distinct (queue s) \<Longrightarrow> distinct (queue (crawlAfter n E c b s))"
  by (induction n arbitrary: s) (simp_all add: distinct_queue_crawlIteration)

section \<open>The loop ends on a finite closed site\<close>

lemma length_set_delete: "length (set_delete xs x) \<le> length xs"
  by (simp add: set_delete_def)

lemma length_set_delete_less: "x \<in> set xs \<Longrightarrow> length (set_delete xs x) < length xs"
  by (simp add: set_delete_def length_removeAll_less)

lemma length_foldl_set_delete: "length (foldl set_delete xs ys) \<le> length xs"
proof (induction ys arbitrary: xs)
  case Nil
  show ?case by simp
next
  case (Cons y ys)
  have "length (foldl set_delete (set_delete xs y) ys) \<le> length (set_delete xs y)"
    by (rule Cons)
  with length_set_delete [of xs y] show ?case
    by simp
qed

lemma length_foldl_set_delete_less:
  assumes "y \<in> set ys" "y \<in> set xs"
  shows "length (foldl set_delete xs ys) < length xs"
  using assms
proof (induction ys arbitrary: xs)
  case Nil
  then show ?case by simp
next
  case (Cons z zs)
  show ?case
  proof (cases "z \<in> set xs")
    case True
    have "length (foldl set_delete (set_delete xs z) zs) \<le> length (set_delete xs z)"
      by (rule length_foldl_set_delete)
    with length_set_delete_less [OF True] show ?thesis
      by simp
  next
    case False
    then have same: "set_delete xs z = xs"
      by (simp add: set_delete_def)
    from False Cons.prems have "y \<in> set zs"
      by auto
    from Cons.IH [OF this Cons.prems(2)] same show ?thesis
      by simp
  qed
qed

lemma slice_head_nonempty:
  "xs \<noteq> [] \<Longrightarrow> 0 < c \<Longrightarrow> slice xs 0 c \<noteq> []"
  by (cases xs) (auto simp: slice_def relIndex_def Let_def min_def)

lemma set_slice: "set (slice xs a b) \<subseteq> set xs"
  by (auto simp: slice_def Let_def dest: in_set_takeD in_set_dropD)

lemma fetchBatch_decreases:
  assumes site: "closedSite E site" and sub: "set (queue s) \<subseteq> set site" and ne: "queue s \<noteq> []"
    and c: "0 < c"
  shows "set (queue (fetchBatch E c s)) \<subseteq> set site
    \<and> (fetchBatch E c s, s) \<in> crawlMeasure (set site)"
proof -
  define U where "U = set site"
  note sub = sub [folded U_def]
  let ?batch = "slice (queue s) 0 c"
  let ?items = "map (\<lambda>u. \<lparr>ScrapeItem.url = u, depth = 0\<rparr>) ?batch"
  let ?s1 = "s\<lparr>queue := foldl set_delete (queue s) ?batch\<rparr>"
  let ?s3 = "fetchBatch E c s"
  from fetchBatch_decompose [of s c E] obtain s2 inflight order where
    b: "beginUrls ?items ?s1 = (s2, inflight)" and ord: "set order = set inflight"
    and fb: "?s3 = foldl (\<lambda>t item. processUrl_resume E item t) s2 order"
    by blast
  note fields = beginUrls_fields [OF b]
  note infl = beginUrls_inflight [OF b]
  have fin: "finite U"
    by (simp add: U_def)
  have batch_ne: "?batch \<noteq> []"
    using ne c by (rule slice_head_nonempty)
  have batch_sub: "set ?batch \<subseteq> set (queue s)"
    by (rule set_slice)
  have urls: "ScrapeItem.url ` set ?items = set ?batch"
    by (simp add: image_image)
  have vis3: "set (visited ?s3) = set (visited s) \<union> set ?batch"
    using fb infl urls by simp
  have q2: "queue s2 = foldl set_delete (queue s) ?batch"
    using fields by simp
  have links: "set (pageLinks E item) \<subseteq> U" if "item \<in> set order" for item
  proof -
    from that ord infl have "item \<in> set ?items"
      by blast
    then obtain u where "u \<in> set ?batch" "item = \<lparr>ScrapeItem.url = u, depth = 0\<rparr>"
      by auto
    with batch_sub sub site show ?thesis
      unfolding closedSite_def U_def by blast
  qed
  have q3: "set (queue ?s3) \<subseteq> set (queue s2) \<union> (\<Union>item \<in> set order. set (pageLinks E item))"
    using foldl_processUrl_resume_queue [of E s2 order] fb by auto
  have "set (queue s2) \<subseteq> U"
    using q2 sub by (auto simp: set_foldl_set_delete)
  with q3 links have sub3: "set (queue ?s3) \<subseteq> U"
    by blast
  have le: "card (U - set (visited ?s3)) \<le> card (U - set (visited s))"
    using vis3 fin by (intro card_mono) auto
  have dec: "card (U - set (visited ?s3)) < card (U - set (visited s))
      \<or> length (queue ?s3) < length (queue s)"
  proof (cases "inflight = []")
    case True
    then have "order = []"
      using ord by simp
    with fb have "queue ?s3 = queue s2"
      by simp
    moreover obtain y where "y \<in> set ?batch"
      using batch_ne by (cases ?batch) auto
    ultimately have "length (queue ?s3) < length (queue s)"
      using q2 batch_sub length_foldl_set_delete_less [of y ?batch "queue s"] by auto
    then show ?thesis ..
  next
    case False
    then obtain item where item: "item \<in> set inflight"
      by (cases inflight) auto
    have once: "fetchesOnce ?s1 s2"
      using b by (rule beginUrls_fetchesOnce)
    have "newRequests ?s1 s2 = map ScrapeItem.url inflight"
      using infl by (simp add: newRequests_def)
    with once have "ScrapeItem.url ` set inflight \<inter> set (visited s) = {}"
      by (simp add: fetchesOnce_def)
    with item have nv: "ScrapeItem.url item \<notin> set (visited s)"
      by blast
    from item infl urls have inb: "ScrapeItem.url item \<in> set ?batch"
      by blast
    with batch_sub sub have inU: "ScrapeItem.url item \<in> U"
      by blast
    have "U - set (visited ?s3) \<subset> U - set (visited s)"
      using vis3 nv inb inU by auto
    with fin have "card (U - set (visited ?s3)) < card (U - set (visited s))"
      by (intro psubset_card_mono) auto
    then show ?thesis ..
  qed
  from le dec have "(?s3, s) \<in> crawlMeasure U"
    by (auto simp: crawlMeasure_def)
  with sub3 show ?thesis
    by (simp add: U_def)
qed

lemma crawlIteration_decreases:
  assumes "closedSite E site" and "set (queue s) \<subseteq> set site" and "queue s \<noteq> []" and "0 < c"
  shows "set (queue (crawlIteration E c b s)) \<subseteq> set site
    \<and> (crawlIteration E c b s, s) \<in> crawlMeasure (set site)"
proof -
  define U where "U = set site"
  note step = fetchBatch_decreases [OF assms, folded U_def]
  let ?s1 = "fetchBatch E c s"
  from step have sub: "set (queue ?s1) \<subseteq> U"
    and dec: "(?s1, s) \<in> crawlMeasure U"
    by simp_all
  have "set (queue (crawlIteration E c b s)) \<subseteq> U \<and> (crawlIteration E c b s, s) \<in> crawlMeasure U"
  proof (cases "int (length (results ?s1)) \<ge> b \<and> encoder ?s1 \<noteq> None \<and> schema ?s1 \<noteq> None")
    case False
    then have "crawlIteration E c b s = ?s1"
      by (auto simp: crawlIteration_def Let_def)
    with sub dec show ?thesis
      by simp
  next
    case True
    then have it: "crawlIteration E c b s = processBatch E b ?s1"
      by (auto simp: crawlIteration_def Let_def)
    have "set (queue (processBatch E b ?s1)) \<subseteq> U"
      using set_queue_processBatch [of E b ?s1] sub by blast
    moreover have "(processBatch E b ?s1, s) \<in> crawlMeasure U"
      using dec length_queue_processBatch [of E b ?s1]
      by (auto simp: crawlMeasure_def)
    ultimately show ?thesis
      using it by simp
  qed
  then show ?thesis
    by (simp add: U_def)
qed

lemma wf_crawlMeasure: "wf (crawlMeasure U)"
  by (simp add: crawlMeasure_def)

lemma crawlLoop_terminates:
  assumes site: "closedSite E site" and c: "0 < c"
  shows "set (queue s) \<subseteq> set site \<Longrightarrow> \<exists>s'. crawlLoop E c b s = Some s'"
proof (induction s rule: wf_induct_rule [OF wf_crawlMeasure [of "set site"]])
  case (1 s)
  show ?case
  proof (cases "queue s = []")
    case True
    then have "crawlLoop E c b s = Some s"
      by (subst crawlLoop.simps) simp
    then show ?thesis ..
  next
    case False
    from crawlIteration_decreases [OF site "1.prems" False c, of b]
    have "set (queue (crawlIteration E c b s)) \<subseteq> set site"
      and "(crawlIteration E c b s, s) \<in> crawlMeasure (set site)"
      by simp_all
    from "1.IH" [OF this(2) this(1)] obtain s' where
      "crawlLoop E c b (crawlIteration E c b s) = Some s'" ..
    with False have "crawlLoop E c b s = Some s'"
      by (subst crawlLoop.simps) simp
    then show ?thesis ..
  qed
qed

lemma processBatch_results:
  "encoder s = Some enc \<Longrightarrow> schema s = Some sch \<Longrightarrow> results (processBatch E b s) = []"
  by (auto simp: processBatch_def Let_def split: prod.splits)

lemma scrapeAll_flush_results:
  "encoder s = Some enc \<Longrightarrow> schema s = Some sch \<Longrightarrow> results (scrapeAll_flush E s) = []"
  by (simp add: scrapeAll_flush_def processBatch_results)

lemma scrapeAll_init_fields [simp]:
  "encoder (scrapeAll_init baseUrl d enc sch s) = enc"
  "schema (scrapeAll_init baseUrl d enc sch s) = sch"
  "maxDepth (scrapeAll_init baseUrl d enc sch s) = d"
  "results (scrapeAll_init baseUrl d enc sch s) = results s"
  "handed (scrapeAll_init baseUrl d enc sch s) = handed s"
  "visited (scrapeAll_init baseUrl d enc sch s) = visited s"
  "requests (scrapeAll_init baseUrl d enc sch s) = requests s"
  "queue (scrapeAll_init baseUrl d enc sch s) = set_add (queue s) baseUrl"
  by (simp_all add: scrapeAll_init_def)

lemma fetchBatch_results_prefix: "\<exists>new. results (fetchBatch E c s) = results s @ new"
  using fetchBatch_decompose [of s c E]
  by (auto simp: foldl_processUrl_resume_results dest!: beginUrls_fields)

lemma crawlAfter_without_ingest:
  assumes "encoder s = None \<or> schema s = None"
  shows "handed (crawlAfter n E c b s) = handed s
    \<and> (\<exists>new. results (crawlAfter n E c b s) = results s @ new)"
  using assms
proof (induction n arbitrary: s)
  case 0
  show ?case by simp
next
  case (Suc n)
  show ?case
  proof (cases "0 < length (queue s)")
    case False
    then show ?thesis by simp
  next
    case True
    have it: "crawlIteration E c b s = fetchBatch E c s"
      using Suc.prems by (auto simp: crawlIteration_def Let_def)
    have "encoder (fetchBatch E c s) = None \<or> schema (fetchBatch E c s) = None"
      using Suc.prems by simp
    from Suc.IH [OF this] obtain new where
      h: "handed (crawlAfter n E c b (fetchBatch E c s)) = handed (fetchBatch E c s)"
      and r: "results (crawlAfter n E c b (fetchBatch E c s)) = results (fetchBatch E c s) @ new"
      by blast
    from fetchBatch_results_prefix [of E c s] obtain new0 where
      "results (fetchBatch E c s) = results s @ new0" ..
    with r have "results (crawlAfter n E c b (fetchBatch E c s)) = results s @ (new0 @ new)"
      by simp
    with h True it show ?thesis
      by auto
  qed
qed

section \<open>Links stay on the host of the page\<close>

lemma isWithinSameDomain_hostnameOf:
  "isWithinSameDomain E u baseUrl
    = (hostnameOf E u \<noteq> None \<and> hostnameOf E u = hostnameOf E baseUrl)"
  by (auto simp: isWithinSameDomain_def hostnameOf_def split: option.splits)

lemma linkOf_same_domain:
  "linkOf E base baseUrl h = Some l \<Longrightarrow> isWithinSameDomain E l baseUrl"
  by (auto simp: linkOf_def Let_def split: if_splits option.splits)

lemma in_set_map_filter:
  "y \<in> set (List.map_filter f xs) \<Longrightarrow> \<exists>x \<in> set xs. f x = Some y"
  by (induction xs) (auto split: option.splits)

lemma extractLinks_same_domain:
  assumes "extractLinks E html baseUrl = Inr ls" and "l \<in> set ls"
  shows "isWithinSameDomain E l baseUrl"
proof -
  from assms(1) obtain base where "ls = List.map_filter (linkOf E base baseUrl) (hrefMatches html)"
    by (auto simp: extractLinks_def split: option.splits)
  with assms(2) obtain h where "linkOf E base baseUrl h = Some l"
    by (blast dest: in_set_map_filter)
  then show ?thesis
    by (rule linkOf_same_domain)
qed

lemma pageLinks_same_domain:
  assumes "l \<in> set (pageLinks E item)"
  shows "isWithinSameDomain E l (ScrapeItem.url item)"
proof (cases "fetchGet E (ScrapeItem.url item)")
  case (Inl e)
  with assms show ?thesis
    by (simp add: pageLinks_def)
next
  case (Inr body)
  show ?thesis
  proof (cases "extractLinks E body (ScrapeItem.url item)")
    case (Inl e)
    with Inr assms show ?thesis
      by (simp add: pageLinks_def)
  next
    case ls: (Inr ls)
    with Inr assms have "l \<in> set ls"
      by (simp add: pageLinks_def)
    with ls show ?thesis
      by (rule extractLinks_same_domain)
  qed
qed

lemma onSeedHost_link:
  "onSeedHost E seed p \<Longrightarrow> isWithinSameDomain E l p \<Longrightarrow> onSeedHost E seed l"
  unfolding onSeedHost_def isWithinSameDomain_hostnameOf by fastforce

lemma fetchBatch_onSeedHost:
  assumes "queueOnSeedHost E seed s"
  shows "queueOnSeedHost E seed (fetchBatch E c s)
    \<and> list_all (onSeedHost E seed) (newRequests s (fetchBatch E c s))"
proof -
  let ?batch = "slice (queue s) 0 c"
  let ?items = "map (\<lambda>u. \<lparr>ScrapeItem.url = u, depth = 0\<rparr>) ?batch"
  let ?s1 = "s\<lparr>queue := foldl set_delete (queue s) ?batch\<rparr>"
  let ?s3 = "fetchBatch E c s"
  from fetchBatch_decompose [of s c E] obtain s2 inflight order where
    b: "beginUrls ?items ?s1 = (s2, inflight)" and ord: "set order = set inflight"
    and fb: "?s3 = foldl (\<lambda>t item. processUrl_resume E item t) s2 order"
    by blast
  note fields = beginUrls_fields [OF b]
  note infl = beginUrls_inflight [OF b]
  have q: "\<And>u. u \<in> set (queue s) \<Longrightarrow> onSeedHost E seed u"
    using assms by (simp add: queueOnSeedHost_def list_all_iff)
  have batch_sub: "set ?batch \<subseteq> set (queue s)"
    by (rule set_slice)
  have urls: "ScrapeItem.url ` set ?items = set ?batch"
    by (simp add: image_image)
  have item_ok: "onSeedHost E seed (ScrapeItem.url item)" if "item \<in> set inflight" for item
  proof -
    from that infl urls have "ScrapeItem.url item \<in> set ?batch"
      by blast
    with batch_sub q show ?thesis
      by blast
  qed
  have new: "newRequests s ?s3 = map ScrapeItem.url inflight"
    using fb infl by (simp add: newRequests_def)
  have reqs: "list_all (onSeedHost E seed) (newRequests s ?s3)"
    unfolding new list_all_iff using item_ok by auto
  have q2: "set (queue s2) \<subseteq> set (queue s)"
    using fields by (auto simp: set_foldl_set_delete)
  have "onSeedHost E seed u" if "u \<in> set (queue ?s3)" for u
  proof -
    from that foldl_processUrl_resume_queue [of E s2 order] fb
    have "u \<in> set (queue s2) \<or> (\<exists>item \<in> set order. u \<in> set (pageLinks E item))"
      by auto
    then show ?thesis
    proof
      assume "u \<in> set (queue s2)"
      with q2 q show ?thesis
        by blast
    next
      assume "\<exists>item \<in> set order. u \<in> set (pageLinks E item)"
      then obtain item where "item \<in> set order" "u \<in> set (pageLinks E item)"
        by blast
      with ord item_ok pageLinks_same_domain show ?thesis
        by (blast intro: onSeedHost_link)
    qed
  qed
  then have "queueOnSeedHost E seed ?s3"
    by (simp add: queueOnSeedHost_def list_all_iff)
  with reqs show ?thesis
    by simp
qed

lemma crawlIteration_onSeedHost:
  assumes "queueOnSeedHost E seed s"
  shows "queueOnSeedHost E seed (crawlIteration E c b s)
    \<and> list_all (onSeedHost E seed) (newRequests s (crawlIteration E c b s))"
proof -
  from fetchBatch_onSeedHost [OF assms, of c] have f: "queueOnSeedHost E seed (fetchBatch E c s)"
    and r: "list_all (onSeedHost E seed) (newRequests s (fetchBatch E c s))"
    by simp_all
  have "queueOnSeedHost E seed (processBatch E b (fetchBatch E c s))"
    using f set_queue_processBatch [of E b "fetchBatch E c s"]
    by (auto simp: queueOnSeedHost_def list_all_iff)
  moreover have "newRequests s (processBatch E b (fetchBatch E c s)) = newRequests s (fetchBatch E c s)"
    by (simp add: newRequests_def)
  ultimately show ?thesis
    using f r by (simp add: crawlIteration_def Let_def)
qed

lemma newRequests_trans:
  "fetchesOnce s s' \<Longrightarrow> fetchesOnce s' s'' \<Longrightarrow> newRequests s s'' = newRequests s s' @ newRequests s' s''"
  by (simp add: fetchesOnce_def newRequests_def) (metis append.assoc append_eq_conv_conj)

lemma crawlAfter_onSeedHost:
  assumes "queueOnSeedHost E seed s"
  shows "queueOnSeedHost E seed (crawlAfter n E c b s)
    \<and> list_all (onSeedHost E seed) (newRequests s (crawlAfter n E c b s))"
  using assms
proof (induction n arbitrary: s)
  case 0
  then show ?case by (simp add: newRequests_def)
next
  case (Suc n)
  show ?case
  proof (cases "0 < length (queue s)")
    case False
    with Suc.prems show ?thesis by (simp add: newRequests_def)
  next
    case True
    let ?s1 = "crawlIteration E c b s"
    from crawlIteration_onSeedHost [OF Suc.prems, of c b]
    have q1: "queueOnSeedHost E seed ?s1" and r1: "list_all (onSeedHost E seed) (newRequests s ?s1)"
      by simp_all
    from Suc.IH [OF q1]
    have q2: "queueOnSeedHost E seed (crawlAfter n E c b ?s1)"
      and r2: "list_all (onSeedHost E seed) (newRequests ?s1 (crawlAfter n E c b ?s1))"
      by simp_all
    have "newRequests s (crawlAfter n E c b ?s1)
        = newRequests s ?s1 @ newRequests ?s1 (crawlAfter n E c b ?s1)"
      using crawlIteration_fetchesOnce crawlAfter_fetchesOnce by (rule newRequests_trans)
    with q2 r1 r2 True show ?thesis
      by simp
  qed
qed

lemma scrapeAll_flush_queue: "set (queue (scrapeAll_flush E s)) \<subseteq> set (queue s)"
  using set_queue_processBatch [of E "int (length (results s))" s]
  by (simp add: scrapeAll_flush_def)

lemma scrapeAll_flush_requests [simp]: "requests (scrapeAll_flush E s) = requests s"
  by (simp add: scrapeAll_flush_def)

section \<open>The rows of a search\<close>

lemma truncate_toQuery [simp]: "EmbeddingStored.truncate (toQuery (d, r)) = r"
  by (simp add: toQuery_def EmbeddingStored.truncate_def)

lemma similarity_toQuery [simp]:
  "similarity (toQuery (d, r)) = Math_round ((1 - (case d of None \<Rightarrow> 0 | Some x \<Rightarrow> x)) * 100)"
  by (simp add: toQuery_def)

lemma vector_toQuery [simp]: "vector (toQuery p) = vector (snd p)"
  by (cases p) (simp add: toQuery_def)

lemma distances_Inr:
  "distances E q rows = Inr ds
    \<Longrightarrow> map snd ds = rows \<and> (\<forall>(d, r) \<in> set ds. vec_distance_cosine E (vector r) q = Inr d)"
proof (induction rows arbitrary: ds)
  case Nil
  then show ?case by auto
next
  case (Cons r rows)
  from Cons.prems obtain d ds' where d: "vec_distance_cosine E (vector r) q = Inr d"
    and ds': "distances E q rows = Inr ds'" and ds: "ds = (d, r) # ds'"
    by (auto split: sum.splits)
  from Cons.IH [OF ds'] d ds show ?case
    by auto
qed


section \<open>Extensions of paths\<close>

lemma upper_shift_not_dot: "65 \<le> n \<Longrightarrow> n \<le> 90 \<Longrightarrow> char_of (n + 32) \<noteq> CHR ''.''" for n :: nat
  by (simp add: char_of_eq_iff take_bit_eq_mod)

lemma upper_shift_not_slash: "65 \<le> n \<Longrightarrow> n \<le> 90 \<Longrightarrow> char_of (n + 32) \<noteq> CHR ''/''" for n :: nat
  by (simp add: char_of_eq_iff take_bit_eq_mod)

lemma of_char_dot: "of_char CHR ''.'' = (46::nat)" "of_char CHR ''/'' = (47::nat)"
  by simp_all

lemma toLowerCase_eq_dot [simp]: "(toLowerCase c = CHR ''.'') = (c = CHR ''.'')"
  using upper_shift_not_dot [of "of_char c"]
  by (auto simp: toLowerCase_def Let_def)

lemma toLowerCase_eq_slash [simp]: "(toLowerCase c = CHR ''/'') = (c = CHR ''/'')"
  using upper_shift_not_slash [of "of_char c"]
  by (auto simp: toLowerCase_def Let_def)


lemma toLowerCase_dot [simp]: "toLowerCase CHR ''.'' = CHR ''.''"
  using toLowerCase_eq_dot [of "CHR ''.''"] by simp

lemma takeWhile_toLowerCase:
  "takeWhile (\<lambda>c. c \<noteq> CHR ''/'') (map toLowerCase xs)
     = map toLowerCase (takeWhile (\<lambda>c. c \<noteq> CHR ''/'') xs)"
  "takeWhile (\<lambda>c. c \<noteq> CHR ''.'') (map toLowerCase xs)
     = map toLowerCase (takeWhile (\<lambda>c. c \<noteq> CHR ''.'') xs)"
  by (induction xs) simp_all

lemma lastSegment_toLowerCase:
  "lastSegment (map toLowerCase p) = map toLowerCase (lastSegment p)"
  by (simp add: lastSegment_def rev_map takeWhile_toLowerCase)

lemma dot_in_toLowerCase: "(CHR ''.'' \<in> set (map toLowerCase p)) = (CHR ''.'' \<in> set p)"
proof
  assume "CHR ''.'' \<in> set (map toLowerCase p)"
  then have "CHR ''.'' \<in> toLowerCase ` set p"
    by simp
  then obtain c where "c \<in> set p" "CHR ''.'' = toLowerCase c"
    by blast
  then have "c \<in> set p" "toLowerCase c = CHR ''.''"
    by simp_all
  then show "CHR ''.'' \<in> set p"
    by simp
next
  assume "CHR ''.'' \<in> set p"
  then have "toLowerCase CHR ''.'' \<in> toLowerCase ` set p"
    by (rule imageI)
  then show "CHR ''.'' \<in> set (map toLowerCase p)"
    by simp
qed

lemma extensionOf_toLowerCase:
  "extensionOf (map toLowerCase p) = map_option (map toLowerCase) (extensionOf p)"
  using dot_in_toLowerCase [of "lastSegment p"]
  by (simp add: extensionOf_def Let_def lastSegment_toLowerCase rev_map
      takeWhile_toLowerCase del: set_map)

lemma endsWith_append: "endsWith s suffix = (\<exists>pre. s = pre @ suffix)"
proof
  assume "endsWith s suffix"
  then have "s = take (length s - length suffix) s @ suffix"
    by (metis append_take_drop_id endsWith_def)
  then show "\<exists>pre. s = pre @ suffix" ..
next
  assume "\<exists>pre. s = pre @ suffix"
  then show "endsWith s suffix"
    by (auto simp: endsWith_def)
qed

lemma extensionOf_suffix:
  assumes "CHR ''.'' \<notin> set e" and "CHR ''/'' \<notin> set e"
  shows "extensionOf (pre @ CHR ''.'' # e) = Some e"
proof -
  have "takeWhile (\<lambda>c. c \<noteq> CHR ''/'') (rev e @ CHR ''.'' # rev pre)
      = rev e @ takeWhile (\<lambda>c. c \<noteq> CHR ''/'') (CHR ''.'' # rev pre)"
    using assms(2) by (intro takeWhile_append2) auto
  then have seg: "lastSegment (pre @ CHR ''.'' # e)
      = rev (takeWhile (\<lambda>c. c \<noteq> CHR ''/'') (rev pre)) @ CHR ''.'' # e"
    by (simp add: lastSegment_def)
  have "takeWhile (\<lambda>c. c \<noteq> CHR ''.'') (rev e @ CHR ''.'' # takeWhile (\<lambda>c. c \<noteq> CHR ''/'') (rev pre))
      = rev e @ takeWhile (\<lambda>c. c \<noteq> CHR ''.'') (CHR ''.'' # takeWhile (\<lambda>c. c \<noteq> CHR ''/'') (rev pre))"
    using assms(1) by (intro takeWhile_append2) auto
  then have "takeWhile (\<lambda>c. c \<noteq> CHR ''.'')
      (rev (rev (takeWhile (\<lambda>c. c \<noteq> CHR ''/'') (rev pre)) @ CHR ''.'' # e)) = rev e"
    by simp
  with seg show ?thesis
    by (simp add: extensionOf_def Let_def)
qed

lemma extensionOf_Some:
  assumes "extensionOf p = Some e"
  shows "\<exists>pre. p = pre @ CHR ''.'' # e \<and> CHR ''.'' \<notin> set e \<and> CHR ''/'' \<notin> set e"
proof -
  let ?seg = "lastSegment p"
  let ?slash = "\<lambda>c. c \<noteq> CHR ''/''"
  let ?dot = "\<lambda>c. c \<noteq> CHR ''.''"
  from assms have dot: "CHR ''.'' \<in> set ?seg"
    and e: "e = rev (takeWhile ?dot (rev ?seg))"
    by (auto simp: extensionOf_def Let_def split: if_splits)
  have "rev (rev p) = rev (takeWhile ?slash (rev p) @ dropWhile ?slash (rev p))"
    by simp
  then have p: "p = rev (dropWhile ?slash (rev p)) @ ?seg"
    by (simp only: rev_rev_ident rev_append lastSegment_def)
  have noslash: "CHR ''/'' \<notin> set ?seg"
    by (auto simp: lastSegment_def dest: set_takeWhileD)
  have nodot: "CHR ''.'' \<notin> set e"
    by (auto simp: e dest: set_takeWhileD)
  from dot have ne: "dropWhile ?dot (rev ?seg) \<noteq> []"
    by (simp add: dropWhile_eq_Nil_conv)
  then obtain c rest where rest: "dropWhile ?dot (rev ?seg) = c # rest"
    by (cases "dropWhile ?dot (rev ?seg)") auto
  from hd_dropWhile [OF ne] rest have c: "c = CHR ''.''"
    by simp
  have "rev (rev ?seg) = rev (takeWhile ?dot (rev ?seg) @ dropWhile ?dot (rev ?seg))"
    by simp
  then have seg: "?seg = rev rest @ CHR ''.'' # e"
    by (simp only: rev_rev_ident rev_append rest c e rev.simps append_assoc append_Cons append_Nil)
  from seg noslash have "CHR ''/'' \<notin> set (rev rest @ CHR ''.'' # e)"
    by simp
  then have noslash_e: "CHR ''/'' \<notin> set e"
    by simp
  from p seg have "p = (rev (dropWhile ?slash (rev p)) @ rev rest) @ CHR ''.'' # e"
    by simp
  with nodot noslash_e show ?thesis
    by blast
qed

lemma endsWith_extension:
  assumes "CHR ''.'' \<notin> set e" and "CHR ''/'' \<notin> set e"
  shows "endsWith q (CHR ''.'' # e) = (extensionOf q = Some e)"
proof
  assume "endsWith q (CHR ''.'' # e)"
  then obtain pre where "q = pre @ CHR ''.'' # e"
    by (auto simp: endsWith_append)
  with assms show "extensionOf q = Some e"
    by (simp add: extensionOf_suffix)
next
  assume "extensionOf q = Some e"
  from extensionOf_Some [OF this] show "endsWith q (CHR ''.'' # e)"
    by (auto simp: endsWith_append)
qed

lemma valid_path_extension:
  "(endsWith (map toLowerCase p) ''.html'' \<or> endsWith (map toLowerCase p) ''.htm''
      \<or> CHR ''.'' \<notin> set (map toLowerCase p))
   = (case extensionOf p of
        None \<Rightarrow> CHR ''.'' \<notin> set p
      | Some e \<Rightarrow> map toLowerCase e = ''html'' \<or> map toLowerCase e = ''htm'')"
proof -
  have html: "endsWith (map toLowerCase p) ''.html'' = (extensionOf (map toLowerCase p) = Some ''html'')"
    using endsWith_extension [of "''html''" "map toLowerCase p"] by simp
  have htm: "endsWith (map toLowerCase p) ''.htm'' = (extensionOf (map toLowerCase p) = Some ''htm'')"
    using endsWith_extension [of "''htm''" "map toLowerCase p"] by simp
  show ?thesis
  proof (cases "extensionOf p")
    case None
    then show ?thesis
      by (simp add: html htm extensionOf_toLowerCase dot_in_toLowerCase del: set_map)
  next
    case (Some e)
    from extensionOf_Some [OF this] have "CHR ''.'' \<in> set p"
      by auto
    with Some show ?thesis
      by (simp add: html htm extensionOf_toLowerCase dot_in_toLowerCase del: set_map)
  qed
qed

section \<open>The claims that the code satisfies\<close>

text \<open>
  C4. With an encoder and a schema set (so that \<open>processBatch\<close> ingests), a queue of
  more than 10000 URLs is cut down by \<open>processBatch\<close> to its last 10000 entries in
  insertion order, a queue of at most 10000 is left as it is, and afterwards the queue
  never holds more than 10000 URLs.
\<close>

theorem frontier_trim:
  assumes "encoder s = Some enc" and "schema s = Some sch" and "distinct (queue s)"
  shows "queue (processBatch E batchSize s) =
      (if length (queue s) > 10000 then drop (length (queue s) - 10000) (queue s) else queue s)
    \<and> length (queue (processBatch E batchSize s)) \<le> 10000"
proof -
  have tail: "slice_from (queue s) (- 10000) = drop (length (queue s) - 10000) (queue s)"
    using slice_from_tail [where n = 10000 and xs = "queue s"] by simp
  have "distinct ([] @ drop (length (queue s) - 10000) (queue s))"
    using assms(3) by simp
  then have "foldl set_add [] (drop (length (queue s) - 10000) (queue s))
      = drop (length (queue s) - 10000) (queue s)"
    using foldl_set_add_distinct [of "[]"] by fastforce
  with tail processBatch_queue [OF assms(1,2), of E batchSize] show ?thesis
    by auto
qed

theorem frontier_trim_witness:
  "queue (processBatch demoEnv 100 crowdedScraper) = drop 2 (queue crowdedScraper)
   \<and> length (queue (processBatch demoEnv 100 crowdedScraper)) \<le> 10000"
proof -
  have e: "encoder crowdedScraper = Some demoEncoder" and s: "schema crowdedScraper = Some demoSchema"
    by (simp_all add: crowdedScraper_def)
  have d: "distinct (queue crowdedScraper)"
    by (simp add: crowdedScraper_def distinct_map inj_on_def)
  have l: "length (queue crowdedScraper) = 10002"
    by (simp add: crowdedScraper_def)
  from frontier_trim [OF e s d, of demoEnv 100] l show ?thesis
    by simp
qed

text \<open>
  C9. When the transform of the schema yields \<open>null\<close> or the empty string,
  \<open>processScrapedResult\<close> returns without a rejection and leaves the state as it was
  but for the record that the result was handed over: the embedder is not called, no row
  is inserted and nothing is logged.
\<close>

theorem parse_failure_is_silent:
  assumes "parse sch (ScrapeResult.content result) = None
    \<or> parse sch (ScrapeResult.content result) = Some []"
  shows "processScrapedResult E result sch enc s = (s\<lparr>handed := handed s @ [result]\<rparr>, None)
    \<and> extractCalls (fst (processScrapedResult E result sch enc s)) = extractCalls s
    \<and> embedding (fst (processScrapedResult E result sch enc s)) = embedding s
    \<and> logged (fst (processScrapedResult E result sch enc s)) = logged s"
  using assms
  by (auto simp: processScrapedResult_def processScrapedResult_begin_def Let_def)

theorem parse_failure_is_silent_witness:
  "processScrapedResult demoEnv
      \<lparr>ScrapeResult.url = ''http://a.test/2'', ScrapeResult.content = ''two''\<rparr>
      demoSchema demoEncoder newScraper
    = (newScraper\<lparr>handed :=
         [\<lparr>ScrapeResult.url = ''http://a.test/2'', ScrapeResult.content = ''two''\<rparr>]\<rparr>,
       None)"
proof -
  have "parse demoSchema (ScrapeResult.content
      \<lparr>ScrapeResult.url = ''http://a.test/2'', ScrapeResult.content = ''two''\<rparr>) = None"
    by (simp add: demoSchema_def)
  then have "parse demoSchema (ScrapeResult.content
      \<lparr>ScrapeResult.url = ''http://a.test/2'', ScrapeResult.content = ''two''\<rparr>) = None
    \<or> parse demoSchema (ScrapeResult.content
      \<lparr>ScrapeResult.url = ''http://a.test/2'', ScrapeResult.content = ''two''\<rparr>) = Some []"
    by (rule disjI1)
  from parse_failure_is_silent [OF this, of demoEnv demoEncoder newScraper] show ?thesis
    by (simp add: newScraper_def)
qed

text \<open>
  C7. In one batch of requests, whatever happens to the other requests: a URL of the
  batch that had not been visited and whose request succeeds has its result in
  \<open>results\<close> when the batch has settled; one whose request fails adds no result; either
  way the URL is then in \<open>visited\<close> and no longer in the queue, so that it is not
  requested again. The batch always settles into a state, from which the loop goes on.
\<close>

theorem fetch_failure_isolation:
  assumes "u \<in> set (slice (queue s) 0 concurrency)" and "u \<notin> set (visited s)"
  shows "(\<forall>body. fetchGet E u = Inr body
            \<longrightarrow> \<lparr>ScrapeResult.url = u, ScrapeResult.content = body\<rparr>
                  \<in> set (results (fetchBatch E concurrency s)))
    \<and> (\<forall>e. fetchGet E u = Inl e
            \<longrightarrow> (\<forall>r \<in> set (results (fetchBatch E concurrency s)).
                   ScrapeResult.url r = u \<longrightarrow> r \<in> set (results s)))
    \<and> u \<in> set (visited (fetchBatch E concurrency s))
    \<and> u \<notin> set (queue (fetchBatch E concurrency s))"
proof -
  let ?batch = "slice (queue s) 0 concurrency"
  let ?items = "map (\<lambda>u. \<lparr>ScrapeItem.url = u, depth = 0\<rparr>) ?batch"
  let ?s1 = "s\<lparr>queue := foldl set_delete (queue s) ?batch\<rparr>"
  let ?item = "\<lparr>ScrapeItem.url = u, depth = 0\<rparr>"
  from fetchBatch_decompose [of s concurrency E] obtain s2 inflight order where
    b: "beginUrls ?items ?s1 = (s2, inflight)" and ord: "set order = set inflight"
    and fb: "fetchBatch E concurrency s = foldl (\<lambda>t item. processUrl_resume E item t) s2 order"
    by blast
  note fields = beginUrls_fields [OF b]
  note infl = beginUrls_inflight [OF b]
  have once: "fetchesOnce ?s1 s2"
    using b by (rule beginUrls_fetchesOnce)
  have urls: "ScrapeItem.url ` set ?items = set ?batch"
    by (simp add: image_image)
  have vis_s2: "set (visited s2) = set (visited s) \<union> set ?batch"
    using infl urls by simp
  have vis2: "u \<in> set (visited s2)"
    using vis_s2 assms(1) by simp
  have "newRequests ?s1 s2 = map ScrapeItem.url inflight"
    using infl by (simp add: newRequests_def)
  with once have "set (visited s2) = set (visited s) \<union> ScrapeItem.url ` set inflight"
    by (simp add: fetchesOnce_def)
  with vis2 assms(2) have "u \<in> ScrapeItem.url ` set inflight"
    by blast
  then obtain item where item: "item \<in> set inflight" "ScrapeItem.url item = u"
    by blast
  have res: "results (fetchBatch E concurrency s) = results s @ concat (map (pageResult E) order)"
    using fb fields by (simp add: foldl_processUrl_resume_results)
  have ok: "\<lparr>ScrapeResult.url = u, ScrapeResult.content = body\<rparr>
      \<in> set (results (fetchBatch E concurrency s))" if "fetchGet E u = Inr body" for body
  proof -
    have "\<lparr>ScrapeResult.url = u, ScrapeResult.content = body\<rparr> \<in> set (pageResult E item)"
      using that item(2) by (simp add: pageResult_def)
    moreover have "item \<in> set order"
      using item(1) ord by simp
    ultimately have "\<lparr>ScrapeResult.url = u, ScrapeResult.content = body\<rparr>
        \<in> set (concat (map (pageResult E) order))"
      by (simp only: set_concat set_map) blast
    with res show ?thesis
      by simp
  qed
  have failed: "r \<in> set (results s)"
    if "fetchGet E u = Inl e" "r \<in> set (results (fetchBatch E concurrency s))"
      "ScrapeResult.url r = u" for e r
  proof (rule ccontr)
    assume "r \<notin> set (results s)"
    with that(2) res have "r \<in> set (concat (map (pageResult E) order))"
      by simp
    then obtain it where it: "it \<in> set order" "r \<in> set (pageResult E it)"
      by (simp only: set_concat set_map) blast
    show False
    proof (cases "fetchGet E (ScrapeItem.url it)")
      case (Inl e')
      with it(2) show False
        by (simp add: pageResult_def)
    next
      case (Inr body)
      with it(2) have "ScrapeResult.url r = ScrapeItem.url it"
        by (simp add: pageResult_def)
      with that(1,3) Inr show False
        by simp
    qed
  qed
  have vis: "u \<in> set (visited (fetchBatch E concurrency s))"
    using fb vis2 by simp
  have "u \<notin> set (queue s2)"
    using fields assms(1) by (simp add: set_foldl_set_delete)
  with foldl_processUrl_resume_queue [of E s2 order] vis2 fb
  have notq: "u \<notin> set (queue (fetchBatch E concurrency s))"
    by auto
  from ok failed vis notq show ?thesis
    by blast
qed

theorem fetch_failure_isolation_witness:
  "fetchGet demoEnv ''http://a.test/4'' = Inl (FetchError ''timeout'')
   \<and> \<lparr>ScrapeResult.url = ''http://a.test/3'', ScrapeResult.content = ''three''\<rparr>
       \<in> set (results (fetchBatch demoEnv 3 threePending))
   \<and> ''http://a.test/3'' \<notin> set (queue (fetchBatch demoEnv 3 threePending))"
proof -
  have f4: "fetchGet demoEnv ''http://a.test/4'' = Inl (FetchError ''timeout'')"
    by (simp add: demoEnv_def demoPages_def)
  have f3: "fetchGet demoEnv ''http://a.test/3'' = Inr ''three''"
    by (simp add: demoEnv_def demoPages_def)
  have b: "''http://a.test/3'' \<in> set (slice (queue threePending) 0 3)"
    by (simp add: threePending_def newScraper_def slice_def relIndex_def)
  have v: "''http://a.test/3'' \<notin> set (visited threePending)"
    by (simp add: threePending_def newScraper_def)
  from fetch_failure_isolation [OF b v, of demoEnv] f3 f4 show ?thesis
    by simp
qed

text \<open>
  C10. Called with an encoder and a schema, \<open>scrapeAll\<close> returns the empty array
  whenever it returns, and it does return when the batches are not empty
  (\<open>concurrency > 0\<close>) and the site is finite and closed. Called without one of them, it
  hands nothing to the ingest and returns the buffer, which then extends the buffer it
  started with.
\<close>

theorem scrapeAll_result_array:
  "(\<forall>s' r. scrapeAll E baseUrl d c b (Some enc) (Some sch) s = Some (s', r) \<longrightarrow> r = [])
   \<and> (closedSite E site \<and> baseUrl \<in> set site \<and> set (queue s) \<subseteq> set site \<and> 0 < c
        \<longrightarrow> (\<exists>s'. scrapeAll E baseUrl d c b (Some enc) (Some sch) s = Some (s', [])))
   \<and> (\<forall>enc' sch' s' r.
         (enc' = None \<or> sch' = None) \<and> scrapeAll E baseUrl d c b enc' sch' s = Some (s', r)
         \<longrightarrow> r = results s' \<and> handed s' = handed s \<and> (\<exists>new. r = results s @ new))"
proof -
  have both: "r = []" if "scrapeAll E baseUrl d c b (Some enc) (Some sch) s = Some (s', r)" for s' r
  proof -
    from that obtain s1 where
      l: "crawlLoop E c b (scrapeAll_init baseUrl d (Some enc) (Some sch) s) = Some s1"
      and s': "s' = scrapeAll_flush E s1" and r: "r = results s'"
      by (auto simp: scrapeAll_def Let_def split: option.splits)
    from crawlLoop_crawlAfter [OF l] obtain n where
      "s1 = crawlAfter n E c b (scrapeAll_init baseUrl d (Some enc) (Some sch) s)"
      by blast
    then have "encoder s1 = Some enc" "schema s1 = Some sch"
      by simp_all
    with s' r show "r = []"
      by (simp add: scrapeAll_flush_results)
  qed
  have returns: "\<exists>s'. scrapeAll E baseUrl d c b (Some enc) (Some sch) s = Some (s', [])"
    if a: "closedSite E site \<and> baseUrl \<in> set site \<and> set (queue s) \<subseteq> set site \<and> 0 < c"
  proof -
    from a have "set (queue (scrapeAll_init baseUrl d (Some enc) (Some sch) s)) \<subseteq> set site"
      by simp
    with a crawlLoop_terminates [of E site c "scrapeAll_init baseUrl d (Some enc) (Some sch) s" b]
    obtain s1 where l: "crawlLoop E c b (scrapeAll_init baseUrl d (Some enc) (Some sch) s) = Some s1"
      by blast
    then obtain s' r where "scrapeAll E baseUrl d c b (Some enc) (Some sch) s = Some (s', r)"
      by (simp add: scrapeAll_def Let_def)
    with both [OF this] show ?thesis
      by blast
  qed
  have omitted: "r = results s' \<and> handed s' = handed s \<and> (\<exists>new. r = results s @ new)"
    if a: "(enc' = None \<or> sch' = None) \<and> scrapeAll E baseUrl d c b enc' sch' s = Some (s', r)"
    for enc' sch' s' r
  proof -
    from a obtain s1 where l: "crawlLoop E c b (scrapeAll_init baseUrl d enc' sch' s) = Some s1"
      and s': "s' = scrapeAll_flush E s1" and r: "r = results s'"
      by (auto simp: scrapeAll_def Let_def split: option.splits)
    from crawlLoop_crawlAfter [OF l] obtain n where
      n: "s1 = crawlAfter n E c b (scrapeAll_init baseUrl d enc' sch' s)"
      by blast
    have none: "encoder (scrapeAll_init baseUrl d enc' sch' s) = None
        \<or> schema (scrapeAll_init baseUrl d enc' sch' s) = None"
      using a by simp
    from crawlAfter_without_ingest [OF none, of n E c b] n
    have h1: "handed s1 = handed s" and r1: "\<exists>new. results s1 = results s @ new"
      by simp_all
    have "encoder s1 = None \<or> schema s1 = None"
      using n a by auto
    then have "scrapeAll_flush E s1 = s1"
      by (auto simp: scrapeAll_flush_def)
    with s' r h1 r1 show ?thesis
      by simp
  qed
  from both returns omitted show ?thesis
    by blast
qed

theorem scrapeAll_result_array_witness:
  "(\<exists>s'. scrapeAll demoEnv ''http://a.test/'' 3 2 1 (Some demoEncoder) (Some demoSchema) newScraper
          = Some (s', []))
   \<and> map_option (\<lambda>p. map ScrapeResult.url (snd p))
        (scrapeAll demoEnv ''http://a.test/'' 3 2 1 None (Some demoSchema) newScraper)
      = Some [''http://a.test/'', ''http://a.test/1'', ''http://a.test/3'', ''http://a.test/2'']"
proof -
  have "closedSite demoEnv demoSite"
    by code_simp
  moreover have "''http://a.test/'' \<in> set demoSite" "set (queue newScraper) \<subseteq> set demoSite"
    by (simp_all add: demoSite_def newScraper_def)
  ultimately have "\<exists>s'. scrapeAll demoEnv ''http://a.test/'' 3 2 1 (Some demoEncoder) (Some demoSchema)
      newScraper = Some (s', [])"
    using scrapeAll_result_array [of demoEnv "''http://a.test/''" 3 2 1 demoEncoder demoSchema
        newScraper demoSite]
    by simp
  moreover have "map_option (\<lambda>p. map ScrapeResult.url (snd p))
        (scrapeAll demoEnv ''http://a.test/'' 3 2 1 None (Some demoSchema) newScraper)
      = Some [''http://a.test/'', ''http://a.test/1'', ''http://a.test/3'', ''http://a.test/2'']"
    by code_simp
  ultimately show ?thesis
    by (rule conjI)
qed

text \<open>
  C5. In a run that starts with an empty queue, at every turn of the loop and at return:
  every URL in the queue and every URL requested in the run is the seed or parses to the
  hostname of the seed, and a URL with another hostname is not in the queue. The code
  compares a link with the page it was found on; the page is itself on the host of the
  seed.
\<close>

theorem same_origin_invariant:
  assumes "queue s = []"
    and "s' = crawlAfter n E concurrency batchSize (scrapeAll_init seed d enc sch s)
      \<or> scrapeAll E seed d concurrency batchSize enc sch s = Some (s', r)"
  shows "list_all (onSeedHost E seed) (queue s')
    \<and> list_all (onSeedHost E seed) (newRequests s s')
    \<and> (\<forall>u. hostnameOf E u \<noteq> hostnameOf E seed \<longrightarrow> u \<notin> set (queue s'))"
proof -
  let ?s0 = "scrapeAll_init seed d enc sch s"
  have start: "queueOnSeedHost E seed ?s0"
    using assms(1) by (simp add: queueOnSeedHost_def set_add_def onSeedHost_def)
  have loop: "list_all (onSeedHost E seed) (queue (crawlAfter k E concurrency batchSize ?s0))
      \<and> list_all (onSeedHost E seed) (newRequests s (crawlAfter k E concurrency batchSize ?s0))"
    for k
  proof -
    have "newRequests ?s0 (crawlAfter k E concurrency batchSize ?s0)
        = newRequests s (crawlAfter k E concurrency batchSize ?s0)"
      by (simp add: newRequests_def)
    with crawlAfter_onSeedHost [OF start, of k concurrency batchSize] show ?thesis
      by (simp add: queueOnSeedHost_def)
  qed
  from assms(2) have q: "list_all (onSeedHost E seed) (queue s')"
    and r': "list_all (onSeedHost E seed) (newRequests s s')"
  proof -
    from assms(2) have "list_all (onSeedHost E seed) (queue s')
        \<and> list_all (onSeedHost E seed) (newRequests s s')"
    proof
      assume "s' = crawlAfter n E concurrency batchSize ?s0"
      with loop show ?thesis
        by simp
    next
      assume "scrapeAll E seed d concurrency batchSize enc sch s = Some (s', r)"
      then obtain s1 where l: "crawlLoop E concurrency batchSize ?s0 = Some s1"
        and s': "s' = scrapeAll_flush E s1"
        by (auto simp: scrapeAll_def Let_def split: option.splits)
      from crawlLoop_crawlAfter [OF l] obtain k where
        k: "s1 = crawlAfter k E concurrency batchSize ?s0"
        by blast
      have "newRequests s s' = newRequests s s1"
        using s' by (simp add: newRequests_def)
      moreover have "set (queue s') \<subseteq> set (queue s1)"
        using s' scrapeAll_flush_queue by simp
      ultimately show ?thesis
        using loop [of k] k by (auto simp: list_all_iff)
    qed
    then show "list_all (onSeedHost E seed) (queue s')"
      and "list_all (onSeedHost E seed) (newRequests s s')"
      by simp_all
  qed
  have "u \<notin> set (queue s')" if "hostnameOf E u \<noteq> hostnameOf E seed" for u
  proof
    assume "u \<in> set (queue s')"
    with q have "onSeedHost E seed u"
      by (simp add: list_all_iff)
    with that show False
      by (auto simp: onSeedHost_def)
  qed
  with q r' show ?thesis
    by blast
qed

theorem same_origin_invariant_witness:
  "''http://b.test/x'' \<in> set (hrefMatches (projr (fetchGet demoEnv ''http://a.test/'')))
   \<and> ''http://b.test/x'' \<notin> set (queue (crawlAfter 1 demoEnv 2 1
         (scrapeAll_init ''http://a.test/'' 3 None None newScraper)))
   \<and> list_all (onSeedHost demoEnv ''http://a.test/'') (queue (crawlAfter 1 demoEnv 2 1
         (scrapeAll_init ''http://a.test/'' 3 None None newScraper)))"
proof -
  have found: "''http://b.test/x'' \<in> set (hrefMatches (projr (fetchGet demoEnv ''http://a.test/'')))"
    by code_simp
  have other: "hostnameOf demoEnv ''http://b.test/x'' \<noteq> hostnameOf demoEnv ''http://a.test/''"
    by code_simp
  have empty: "queue newScraper = []"
    by (simp add: newScraper_def)
  from same_origin_invariant [OF empty disjI1 [OF refl], of demoEnv "''http://a.test/''" 1 2 1 3 None None]
    found other
  show ?thesis
    by blast
qed

text \<open>
  C6. When \<open>searchVectors\<close> returns for a limit \<open>k \<ge> 0\<close>: it returns
  \<open>min k (number of rows)\<close> entries, hence at most \<open>k\<close>; they are in ascending order of
  cosine distance from the query (\<open>NULL\<close> first); every stored row that is not returned
  is at least as far as every returned one; and the similarity of an entry is
  \<open>Math.round((1 - distance) * 100)\<close>, with 0 for a \<open>NULL\<close> distance. Distances are
  real numbers here.
\<close>

theorem vector_search_contract:
  assumes "searchVectors E q k rows = Inr found" and "0 \<le> k"
  shows "length found \<le> nat k
    \<and> length found = min (nat k) (length rows)
    \<and> sorted (map (\<lambda>f. distanceFrom E q (vector f)) found)
    \<and> map similarity found
        = map (\<lambda>f. Math_round
                 ((1 - (case distanceFrom E q (vector f) of None \<Rightarrow> 0 | Some x \<Rightarrow> x)) * 100)) found
    \<and> (\<exists>rest. mset (map EmbeddingStored.truncate found) + mset rest = mset rows
          \<and> (\<forall>f \<in> set found. \<forall>r \<in> set rest.
                distanceFrom E q (vector f) \<le> distanceFrom E q (vector r)))"
proof -
  let ?q = "map (toFloat32 E) q"
  from assms(1) obtain sel where sel: "selectNearest E ?q k rows = Inr sel"
    and found: "found = map toQuery sel"
    by (auto simp: searchVectors_def Let_def split: sum.splits)
  from sel obtain ds where ds: "distances E ?q rows = Inr ds"
    and sel_eq: "sel = take (nat k) (sort_key fst ds)"
    using assms(2) by (auto simp: selectNearest_def Let_def split: sum.splits)
  let ?ord = "sort_key fst ds"
  let ?rest = "drop (nat k) ?ord"
  from distances_Inr [OF ds] have rows: "map snd ds = rows"
    and dist: "\<And>d r. (d, r) \<in> set ds \<Longrightarrow> vec_distance_cosine E (vector r) ?q = Inr d"
    by auto
  have dist_ord: "distanceFrom E q (vector (snd p)) = fst p" if "p \<in> set ?ord" for p
  proof -
    from that have "(fst p, snd p) \<in> set ds"
      by simp
    from dist [OF this] show ?thesis
      by (simp add: distanceFrom_def)
  qed
  have len: "length found = min (nat k) (length rows)"
    using rows by (auto simp: found sel_eq dest: arg_cong [where f = length])
  have split: "?ord = sel @ ?rest"
    by (simp add: sel_eq)
  have "sorted (map fst ?ord)"
    by (rule sorted_sort_key)
  then have "sorted (map fst sel @ map fst ?rest)"
    by (subst (asm) split) simp
  then have sorted_sel: "sorted (map fst sel)"
    and cross: "\<And>x y. x \<in> set sel \<Longrightarrow> y \<in> set ?rest \<Longrightarrow> fst x \<le> fst y"
    by (auto simp: sorted_append)
  have sel_sub: "set sel \<subseteq> set ?ord" and rest_sub: "set ?rest \<subseteq> set ?ord"
    by (auto simp: sel_eq dest: in_set_takeD in_set_dropD)
  have d_found: "map (\<lambda>f. distanceFrom E q (vector f)) found = map fst sel"
    unfolding found map_map
  proof (rule map_cong [OF refl])
    fix p assume "p \<in> set sel"
    with sel_sub dist_ord [of p] show "((\<lambda>f. distanceFrom E q (vector f)) \<circ> toQuery) p = fst p"
      by (cases p) auto
  qed
  have srt: "sorted (map (\<lambda>f. distanceFrom E q (vector f)) found)"
    using d_found sorted_sel by simp
  have sim: "map similarity found
      = map (\<lambda>f. Math_round
               ((1 - (case distanceFrom E q (vector f) of None \<Rightarrow> 0 | Some x \<Rightarrow> x)) * 100)) found"
    unfolding found map_map
  proof (rule map_cong [OF refl])
    fix p assume "p \<in> set sel"
    with sel_sub dist_ord [of p]
    show "(similarity \<circ> toQuery) p
        = ((\<lambda>f. Math_round
               ((1 - (case distanceFrom E q (vector f) of None \<Rightarrow> 0 | Some x \<Rightarrow> x)) * 100))
            \<circ> toQuery) p"
      by (cases p) auto
  qed
  have trunc: "map EmbeddingStored.truncate found = map snd sel"
    unfolding found map_map by (rule map_cong [OF refl]) auto
  have "mset (map snd sel) + mset (map snd ?rest) = mset (map snd ?ord)"
    unfolding sel_eq by (metis append_take_drop_id map_append mset_append)
  also have "\<dots> = mset rows"
    using rows by (metis mset_map mset_sort)
  finally have all: "mset (map EmbeddingStored.truncate found) + mset (map snd ?rest) = mset rows"
    using trunc by simp
  have least: "distanceFrom E q (vector f) \<le> distanceFrom E q (vector r)"
    if "f \<in> set found" "r \<in> set (map snd ?rest)" for f r
  proof -
    from that(1) obtain x where x: "x \<in> set sel" "f = toQuery x"
      by (auto simp: found)
    from that(2) obtain y where y: "y \<in> set ?rest" "r = snd y"
      by auto
    have "distanceFrom E q (vector f) = fst x"
      using x sel_sub dist_ord [of x] by auto
    moreover have "distanceFrom E q (vector r) = fst y"
      using y rest_sub dist_ord [of y] by auto
    ultimately show ?thesis
      using cross [OF x(1) y(1)] by simp
  qed
  from len have "length found \<le> nat k"
    by simp
  with len srt sim all least show ?thesis
    by blast
qed

theorem vector_search_contract_witness:
  "map (\<lambda>f. (id' f, similarity f)) (projr (searchVectors demoEnv [0] 2 demoRows))
     = [(''r2'', 90), (''r1'', 60)]"
proof -
  have run: "searchVectors demoEnv [0] 2 demoRows
      = Inr (map toQuery [(Some (1 / 10), demoRows ! 1), (Some (4 / 10), demoRows ! 0)])"
    by (simp add: searchVectors_def selectNearest_def demoEnv_def demoRows_def Let_def)
  from vector_search_contract [OF run]
  have "length (map toQuery [(Some ((1::real) / 10), demoRows ! 1), (Some (4 / 10), demoRows ! 0)])
      \<le> nat 2"
    by simp
  with run show ?thesis
    by (simp add: toQuery_def demoRows_def Math_round_def)
qed

section \<open>Where the code departs from the claims\<close>

text \<open>
  C2. \<open>scrapeAll\<close> hands every URL to \<open>processUrl\<close> with depth 0, so the guard
  \<open>depth < maxDepth\<close> never sees the depth of discovery. On the small site with
  \<open>maxDepth = 1\<close>: page 1 is found on the seed, hence at depth 1, and after the batch
  that requests it the links found on page 1 are in the queue.
\<close>

theorem depth_bound_not_enforced:
  "queue (crawlAfter 1 demoEnv 10 100
       (scrapeAll_init ''http://a.test/'' 1 None None newScraper))
     = [''http://a.test/1'']
   \<and> queue (crawlAfter 2 demoEnv 10 100
       (scrapeAll_init ''http://a.test/'' 1 None None newScraper))
     = [''http://a.test/2'', ''http://a.test/3'', ''http://a.test/4'']"
  by code_simp

text \<open>
  C3. \<open>processBatch\<close> takes \<open>batchSize\<close> results off the buffer and then empties the
  buffer. On the small site with two requests per batch and an ingest batch of one: the
  third batch fetches pages 2 and 3, page 3 settles first and is ingested, and the result
  of page 2 is dropped from the buffer without being handed to \<open>processScrapedResult\<close>.
\<close>

theorem buffered_result_dropped:
  "fetchGet demoEnv ''http://a.test/2'' = Inr ''two''
   \<and> (let s = crawlAfter 3 demoEnv 2 1
              (scrapeAll_init ''http://a.test/'' 3 (Some demoEncoder) (Some demoSchema) newScraper)
        in (requests s, map ScrapeResult.url (handed s), results s))
     = ([''http://a.test/'', ''http://a.test/1'', ''http://a.test/2'', ''http://a.test/3''],
        [''http://a.test/'', ''http://a.test/1'', ''http://a.test/3''],
        [])"
  by code_simp

text \<open>
  C8. \<open>isValidUrl\<close> tests whether the path contains a dot anywhere, not whether it has
  an extension. A URL without a fragment whose path has no extension is therefore
  rejected when a directory of the path contains a dot: \<open>/v1.2/guide\<close>, and the seed
  \<open>/docs/latest-v24.x/api/\<close> of the first schema entry.
\<close>

theorem extensionless_path_rejected:
  "eligible_spec guideEnv ''http://a.test/v1.2/guide''
   \<and> \<not> isValidUrl guideEnv ''http://a.test/v1.2/guide''
   \<and> eligible_spec guideEnv ''https://nodejs.org/docs/latest-v24.x/api/''
   \<and> \<not> isValidUrl guideEnv ''https://nodejs.org/docs/latest-v24.x/api/''"
  by code_simp

text \<open>
  What \<open>isValidUrl\<close> decides, in terms of the extension: a URL passes iff it contains
  no \<open>#\<close>, it parses, and its path either has the extension \<open>html\<close> or \<open>htm\<close> in
  any case, or contains no dot at all. The examples of the claim come out as it says.
\<close>

theorem isValidUrl_by_extension:
  "isValidUrl E u =
     (CHR ''#'' \<notin> set u \<and>
      (case urlParse E u of
         None \<Rightarrow> False
       | Some urlObj \<Rightarrow>
           (case extensionOf (pathname urlObj) of
              None \<Rightarrow> CHR ''.'' \<notin> set (pathname urlObj)
            | Some e \<Rightarrow> map toLowerCase e = ''html'' \<or> map toLowerCase e = ''htm'')))"
proof (cases "urlParse E u")
  case None
  then show ?thesis
    by (simp add: isValidUrl_def)
next
  case (Some urlObj)
  with valid_path_extension [of "pathname urlObj"] show ?thesis
    by (simp add: isValidUrl_def Let_def del: set_map)
qed

theorem isValidUrl_examples:
  "isValidUrl guideEnv ''http://a.test/guide'' \<and> isValidUrl guideEnv ''http://a.test/guide.html''
   \<and> \<not> isValidUrl guideEnv ''http://a.test/guide.pdf''
   \<and> \<not> isValidUrl guideEnv ''http://a.test/guide#section''"
  unfolding isValidUrl_by_extension by code_simp

end
